theory Spec2Isabelle
  imports
    Complex_Main
    "HOL-Library.Char_ord"
    "HOL-Library.List_Lexorder"
    "HOL-Library.Product_Lexorder"
    "HOL-Library.AList"
    "HOL-Library.Multiset"
begin

section \<open>Python values\<close>

text \<open>
  A Python \<open>str\<close> is modelled as a \<open>string\<close> whose characters are the code points
  below 256; the character classes below are those of CPython on that range. Integers are
  unbounded (\<open>int\<close>), a \<open>set\<close> of integers is an \<open>int set\<close>, and a \<open>dict\<close> is an
  association list in insertion order, read with \<open>map_of\<close> and written with
  \<open>AList.update\<close> (a new key goes to the end, an old key keeps its place).
  An exception is a value of \<open>py_error\<close>, returned on the left of a sum.
\<close>

datatype py_error = IndexError | ValueError | Exception string

type_synonym ('k, 'v) dict = "('k \<times> 'v) list"

definition dict_get :: "('k, 'v) dict \<Rightarrow> 'k \<Rightarrow> 'v \<Rightarrow> 'v" where
  \<comment> \<open>\<open>d.get(k, default)\<close>\<close>
  "dict_get d k dflt = (case map_of d k of None \<Rightarrow> dflt | Some v \<Rightarrow> v)"

definition dict_keys :: "('k, 'v) dict \<Rightarrow> 'k list" where
  "dict_keys d = map fst d"


definition is_space :: "char \<Rightarrow> bool" where
  \<comment> \<open>\<open>str.isspace\<close> on one character\<close>
  "is_space c = ((of_char c :: nat) \<in> {9, 10, 11, 12, 13, 28, 29, 30, 31, 32, 133, 160})"

definition lower_char :: "char \<Rightarrow> char" where
  "lower_char c =
     (let n = (of_char c :: nat)
      in if (65 \<le> n \<and> n \<le> 90) \<or> (192 \<le> n \<and> n \<le> 214) \<or> (216 \<le> n \<and> n \<le> 222)
         then char_of (n + 32) else c)"

definition lower :: "string \<Rightarrow> string" where
  \<comment> \<open>\<open>str.lower\<close>\<close>
  "lower s = map lower_char s"

definition upper_char :: "char \<Rightarrow> char" where
  "upper_char c =
     (let n = (of_char c :: nat)
      in if (97 \<le> n \<and> n \<le> 122) \<or> (224 \<le> n \<and> n \<le> 246) \<or> (248 \<le> n \<and> n \<le> 254)
         then char_of (n - 32) else c)"

definition upper :: "string \<Rightarrow> string" where
  \<comment> \<open>\<open>str.upper\<close>; the three characters 181, 223 and 255, whose upper case is not a
      single code point below 256, are left as they are. None of them is mapped by
      Python to a letter of \<open>AND\<close>, \<open>OR\<close> or \<open>NOT\<close>, the only use made of \<open>upper\<close>.\<close>
  "upper s = map upper_char s"

function split_ws :: "string \<Rightarrow> string list" where
  \<comment> \<open>\<open>str.split()\<close> with no argument: the maximal runs of non-space characters\<close>
  "split_ws [] = []"
| "split_ws (c # cs) =
     (if is_space c then split_ws cs
      else takeWhile (\<lambda>x. \<not> is_space x) (c # cs) # split_ws (dropWhile (\<lambda>x. \<not> is_space x) cs))"
  by pat_completeness auto
termination
  by (relation "measure length") (auto simp: less_Suc_eq_le length_dropWhile_le)

definition strip :: "string \<Rightarrow> string" where
  \<comment> \<open>\<open>str.strip()\<close>\<close>
  "strip s = rev (dropWhile is_space (rev (dropWhile is_space s)))"

section \<open>Posting algebra (lists.py)\<close>

function intersect_linear_loop ::
  "int list \<Rightarrow> int list \<Rightarrow> nat \<Rightarrow> nat \<Rightarrow> int list \<Rightarrow> int list" where
  "intersect_linear_loop list1 list2 i j result =
     (if i < length list1 \<and> j < length list2 then
        if list1 ! i = list2 ! j then
          intersect_linear_loop list1 list2 (i + 1) (j + 1) (result @ [list1 ! i])
        else if list1 ! i < list2 ! j then
          intersect_linear_loop list1 list2 (i + 1) j result
        else
          intersect_linear_loop list1 list2 i (j + 1) result
      else result)"
  by pat_completeness auto
termination
  by (relation "measure (\<lambda>(l1, l2, i, j, r). (length l1 - i) + (length l2 - j))") auto

definition intersect_linear :: "int list \<Rightarrow> int list \<Rightarrow> int list" where
  "intersect_linear list1 list2 = intersect_linear_loop list1 list2 0 0 []"

function binary_search :: "int list \<Rightarrow> int \<Rightarrow> nat \<Rightarrow> nat \<Rightarrow> py_error + int" where
  \<comment> \<open>the index of \<open>target\<close> in \<open>arr[low:high]\<close>, or \<open>-1\<close>; \<open>arr[mid]\<close> raises
      IndexError beyond the end of \<open>arr\<close>\<close>
  "binary_search arr target low high =
     (if low < high then
        let mid = (low + high) div 2 in
        if \<not> mid < length arr then Inl IndexError
        else if arr ! mid = target then Inr (int mid)
        else if arr ! mid < target then binary_search arr target (mid + 1) high
        else binary_search arr target low mid
      else Inr (- 1))"
  by pat_completeness auto
termination
  by (relation "measure (\<lambda>(arr, target, low, high). high - low)") auto

function gallop :: "int list \<Rightarrow> int \<Rightarrow> nat \<Rightarrow> nat \<Rightarrow> nat \<times> nat" where
  \<comment> \<open>the probing loop \<open>while hi < len(list2) and list2[hi] < element: lo = hi; hi *= 2\<close>,
      entered with \<open>hi = 1\<close>. The test \<open>0 < hi\<close> is not in the source: it always holds
      there, and it is what makes the doubling progress.\<close>
  "gallop list2 element lo hi =
     (if 0 < hi \<and> hi < length list2 \<and> list2 ! hi < element
      then gallop list2 element hi (hi * 2)
      else (lo, hi))"
  by pat_completeness auto
termination
  by (relation "measure (\<lambda>(list2, element, lo, hi). length list2 - hi)") auto

fun galloping_loop :: "int list \<Rightarrow> int list \<Rightarrow> int list \<Rightarrow> py_error + int list" where
  \<comment> \<open>\<open>for element in list1\<close>, with \<open>result\<close> threaded through\<close>
  "galloping_loop [] list2 result = Inr result"
| "galloping_loop (element # rest) list2 result =
     (let (lo, hi) = gallop list2 element 0 1;
          hi = min hi (length list2)
      in case binary_search list2 element lo hi of
           Inl e \<Rightarrow> Inl e
         | Inr pos \<Rightarrow>
             galloping_loop rest list2 (if pos \<noteq> - 1 then result @ [element] else result))"

definition intersect_galloping :: "int list \<Rightarrow> int list \<Rightarrow> py_error + int list" where
  "intersect_galloping list1 list2 =
     (if length list1 > length list2 then galloping_loop list2 list1 []
      else galloping_loop list1 list2 [])"

section \<open>Phrase queries\<close>

subsection \<open>Biword engine (phrase\_query.py)\<close>

text \<open>
  The stemmer is NLTK's \<open>PorterStemmer\<close>, which is not part of the repository: it is the
  parameter \<open>stem\<close>. A biword key of the loaded index is the string \<open>t1_t2\<close>.
\<close>

definition phrase_to_biwords :: "(string \<Rightarrow> string) \<Rightarrow> string \<Rightarrow> string list" where
  "phrase_to_biwords stem phrase =
     (let words = split_ws (lower phrase);
          stemmed_words = map stem words
      in map (\<lambda>i. stemmed_words ! i @ ''_'' @ stemmed_words ! (i + 1))
           [0 ..< length stemmed_words - 1])"

definition retrieve_documents ::
  "(string \<Rightarrow> string) \<Rightarrow> string \<Rightarrow> (string, int set) dict \<Rightarrow> int set" where
  \<comment> \<open>the warning printed when every posting set is empty is not modelled\<close>
  "retrieve_documents stem phrase biword_index =
     (let biwords = phrase_to_biwords stem phrase
      in if biwords = [] then {}
         else let doc_lists = map (\<lambda>biword. dict_get biword_index biword {}) biwords
              in if doc_lists \<noteq> [] then fold (\<inter>) (tl doc_lists) (hd doc_lists) else {})"

subsection \<open>Positional engine (positional\_phrase\_query.py)\<close>

type_synonym positional_index = "(string, (int, int list) dict) dict"

definition phrase_words :: "string \<Rightarrow> string list" where
  \<comment> \<open>line 25 of positional\_phrase\_query.py: \<open>words = phrase.lower().split()\<close>\<close>
  "phrase_words phrase = split_ws (lower phrase)"

definition candidate_docs :: "string list \<Rightarrow> positional_index \<Rightarrow> int set" where
  \<comment> \<open>lines 29 to 35: the documents of the first word, narrowed by every later word\<close>
  "candidate_docs words positional_index =
     fold (\<lambda>current_word result_docs.
             result_docs \<inter> set (dict_keys (dict_get positional_index current_word [])))
          (tl words)
          (set (dict_keys (dict_get positional_index (hd words) [])))"

definition phrase_query :: "string \<Rightarrow> positional_index \<Rightarrow> int set" where
  \<comment> \<open>\<open>positional_index[word][doc_id]\<close> is read only for documents of
      \<open>result_docs\<close>, which hold every word, so the lookup never misses\<close>
  "phrase_query phrase positional_index =
     (let words = phrase_words phrase
      in if words = [] then {}
         else
           let result_docs = candidate_docs words positional_index
           in {doc_id \<in> result_docs.
                 let positions =
                       map (\<lambda>word. dict_get (dict_get positional_index word []) doc_id []) words
                 in \<exists>pos \<in> set (positions ! 0).
                      \<forall>i \<in> set [1 ..< length words]. pos + int i \<in> set (positions ! i)})"

definition docs_of :: "positional_index \<Rightarrow> string \<Rightarrow> int set" where
  \<comment> \<open>\<open>set(positional_index.get(word, {}).keys())\<close>\<close>
  "docs_of positional_index word = set (dict_keys (dict_get positional_index word []))"

definition positions_of :: "positional_index \<Rightarrow> string \<Rightarrow> int \<Rightarrow> int list" where
  \<comment> \<open>the position list of \<open>word\<close> in \<open>doc_id\<close>, empty where the index has none\<close>
  "positions_of positional_index word doc_id =
     dict_get (dict_get positional_index word []) doc_id []"

section \<open>Reading index files\<close>

text \<open>
  A file is the string of its characters. Iterating over a file opened in text mode
  yields its lines, each ended by a line feed, with \<open>\r\n\<close> and a lone \<open>\r\<close> read
  as a line feed; a last line with no line end is yielded as it is.
\<close>

definition LF :: char where "LF = CHR 0x0A"
definition CR :: char where "CR = CHR 0x0D"

function readlines :: "string \<Rightarrow> string list" where
  "readlines [] = []"
| "readlines (c # cs) =
     (let body = takeWhile (\<lambda>x. x \<noteq> LF \<and> x \<noteq> CR) (c # cs);
          rest = dropWhile (\<lambda>x. x \<noteq> LF \<and> x \<noteq> CR) (c # cs)
      in case rest of
           [] \<Rightarrow> [body]
         | r # rs \<Rightarrow>
             (if r = CR \<and> rs \<noteq> [] \<and> hd rs = LF then (body @ [LF]) # readlines (tl rs)
              else (body @ [LF]) # readlines rs))"
  by pat_completeness auto
termination
proof (relation "measure length")
  show "wf (measure length)" by simp
next
  fix c :: char and cs x xa r rs
  assume "x = takeWhile (\<lambda>x. x \<noteq> LF \<and> x \<noteq> CR) (c # cs)"
    and "xa = dropWhile (\<lambda>x. x \<noteq> LF \<and> x \<noteq> CR) (c # cs)"
    and "xa = r # rs"
  then have "length (r # rs) \<le> length (c # cs)"
    by (metis length_dropWhile_le)
  then have "length rs < length (c # cs)" by simp
  moreover have "length (tl rs) \<le> length rs" by simp
  ultimately show "(tl rs, c # cs) \<in> measure length" "(rs, c # cs) \<in> measure length"
    by simp_all
qed

function split_on :: "char \<Rightarrow> string \<Rightarrow> string list" where
  \<comment> \<open>\<open>s.split(sep)\<close> for a one-character separator: never an empty list\<close>
  "split_on sep s =
     (case dropWhile (\<lambda>x. x \<noteq> sep) s of
        [] \<Rightarrow> [s]
      | _ # rest \<Rightarrow> takeWhile (\<lambda>x. x \<noteq> sep) s # split_on sep rest)"
  by pat_completeness auto
termination
proof (relation "measure (\<lambda>(sep, s). length s)")
  show "wf (measure (\<lambda>(sep, s). length s))" by simp
next
  fix sep :: char and s x21 x22
  assume "dropWhile (\<lambda>x. x \<noteq> sep) s = x21 # x22"
  then have "length (x21 # x22) \<le> length s"
    by (metis length_dropWhile_le)
  then show "((sep, x22), (sep, s)) \<in> measure (\<lambda>(sep, s). length s)" by simp
qed

definition rstrip_char :: "char \<Rightarrow> string \<Rightarrow> string" where
  \<comment> \<open>\<open>s.rstrip(c)\<close> for a single character\<close>
  "rstrip_char c s = rev (dropWhile (\<lambda>x. x = c) (rev s))"

definition is_decimal :: "char \<Rightarrow> bool" where
  "is_decimal c = (48 \<le> (of_char c :: nat) \<and> (of_char c :: nat) \<le> 57)"

definition isdigit :: "string \<Rightarrow> bool" where
  \<comment> \<open>\<open>str.isdigit\<close>: also true of the superscript digits 178, 179 and 185, which
      \<open>int\<close> does not read\<close>
  "isdigit s = (s \<noteq> [] \<and> list_all (\<lambda>c. is_decimal c \<or> (of_char c :: nat) \<in> {178, 179, 185}) s)"

definition digit_val :: "char \<Rightarrow> nat" where
  "digit_val c = (of_char c :: nat) - 48"

fun int_digits :: "nat \<Rightarrow> string \<Rightarrow> nat option" where
  \<comment> \<open>the digits after the first, single underscores allowed between two digits\<close>
  "int_digits acc [] = Some acc"
| "int_digits acc (c # cs) =
     (if is_decimal c then int_digits (acc * 10 + digit_val c) cs
      else if c = CHR ''_'' then
        (case cs of
           [] \<Rightarrow> None
         | d # ds \<Rightarrow> if is_decimal d then int_digits (acc * 10 + digit_val d) ds else None)
      else None)"

definition int_unsigned :: "string \<Rightarrow> nat option" where
  "int_unsigned s =
     (case s of
        [] \<Rightarrow> None
      | c # cs \<Rightarrow> if is_decimal c then int_digits (digit_val c) cs else None)"

definition py_int :: "string \<Rightarrow> py_error + int" where
  \<comment> \<open>\<open>int(s)\<close> in base 10: surrounding whitespace, one optional sign, decimal digits;
      the interpreter's limit on the number of digits is not modelled\<close>
  "py_int s =
     (let t = strip s;
          r = (case t of
                 [] \<Rightarrow> None
               | c # cs \<Rightarrow>
                   if c = CHR ''-'' then map_option (\<lambda>n. - int n) (int_unsigned cs)
                   else if c = CHR ''+'' then map_option int (int_unsigned cs)
                   else map_option int (int_unsigned t))
      in case r of None \<Rightarrow> Inl ValueError | Some n \<Rightarrow> Inr n)"

fun map_result :: "('a \<Rightarrow> py_error + 'b) \<Rightarrow> 'a list \<Rightarrow> py_error + 'b list" where
  \<comment> \<open>\<open>f\<close> on every element in order, stopping at the first exception\<close>
  "map_result f [] = Inr []"
| "map_result f (x # xs) =
     (case f x of
        Inl e \<Rightarrow> Inl e
      | Inr y \<Rightarrow> (case map_result f xs of Inl e \<Rightarrow> Inl e | Inr ys \<Rightarrow> Inr (y # ys)))"

subsection \<open>Term index (lists.py and boolean.py, the same function in both)\<close>

fun load_inverted_index_lines ::
  "string list \<Rightarrow> (string, int set) dict \<Rightarrow> py_error + (string, int set) dict" where
  "load_inverted_index_lines [] inverted_index = Inr inverted_index"
| "load_inverted_index_lines (line # rest) inverted_index =
     (let parts = split_ws (strip line)
      in if length parts < 3 then load_inverted_index_lines rest inverted_index
         else
           let term = parts ! 0;
               posting_str = parts ! 2;
               doc_ids = split_on (CHR '','') posting_str
           in case map_result py_int (filter isdigit doc_ids) of
                Inl e \<Rightarrow> Inl e
              | Inr ids \<Rightarrow>
                  load_inverted_index_lines rest (AList.update term (set ids) inverted_index))"

definition load_inverted_index :: "string \<Rightarrow> py_error + (string, int set) dict" where
  "load_inverted_index file = load_inverted_index_lines (readlines file) []"

subsection \<open>Vocabulary (ngram\_jaccard\_correction.py)\<close>

fun load_vocabulary_lines ::
  "string list \<Rightarrow> (string, int) dict \<Rightarrow> py_error + (string, int) dict" where
  "load_vocabulary_lines [] vocabulary = Inr vocabulary"
| "load_vocabulary_lines (line # rest) vocabulary =
     (let parts = split_ws (strip line)
      in if \<not> 0 < length parts then Inl IndexError
         else
           let term = parts ! 0
           in if \<not> 1 < length parts then Inl IndexError
              else case py_int (parts ! 1) of
                     Inl e \<Rightarrow> Inl e
                   | Inr df \<Rightarrow> load_vocabulary_lines rest (AList.update term df vocabulary))"

definition load_vocabulary_with_frequency :: "string \<Rightarrow> py_error + (string, int) dict" where
  "load_vocabulary_with_frequency file = load_vocabulary_lines (readlines file) []"

subsection \<open>Positional index (positional\_phrase\_query.py)\<close>

fun load_postings ::
  "string \<Rightarrow> string list \<Rightarrow> positional_index \<Rightarrow> py_error + positional_index" where
  \<comment> \<open>\<open>for posting in postings\<close>; unpacking \<open>posting.split(':')\<close> into two names raises
      ValueError unless there are exactly two parts\<close>
  "load_postings term [] positional_index = Inr positional_index"
| "load_postings term (posting # rest) positional_index =
     (let posting = rstrip_char (CHR '';'') posting;
          fields = split_on (CHR '':'') posting
      in if length fields \<noteq> 2 then Inl ValueError
         else
           let doc_id = fields ! 0;
               positions = fields ! 1
           in case map_result py_int (split_on (CHR '','') positions) of
                Inl e \<Rightarrow> Inl e
              | Inr positions \<Rightarrow>
                  (case py_int doc_id of
                     Inl e \<Rightarrow> Inl e
                   | Inr d \<Rightarrow>
                       load_postings term rest
                         (AList.update term
                            (AList.update d positions (dict_get positional_index term []))
                            positional_index)))"

fun load_positional_lines ::
  "string list \<Rightarrow> positional_index \<Rightarrow> py_error + positional_index" where
  \<comment> \<open>\<open>term, *postings = line.strip().split()\<close> raises ValueError on an empty list\<close>
  "load_positional_lines [] positional_index = Inr positional_index"
| "load_positional_lines (line # rest) positional_index =
     (case split_ws (strip line) of
        [] \<Rightarrow> Inl ValueError
      | term # postings \<Rightarrow>
          (case load_postings term postings positional_index of
             Inl e \<Rightarrow> Inl e
           | Inr positional_index \<Rightarrow> load_positional_lines rest positional_index))"

definition load_positional_index :: "string \<Rightarrow> py_error + positional_index" where
  \<comment> \<open>for a file that exists; a missing file gives the empty index\<close>
  "load_positional_index file = load_positional_lines (readlines file) []"

section \<open>Approximate correction (ngram\_jaccard\_correction.py)\<close>

text \<open>
  \<open>Levenshtein.distance\<close> comes from a library outside the repository: it is the
  parameter \<open>distance\<close>. The similarity is a Python float, the quotient of two set
  sizes compared with \<open>0.3\<close>; here it is the exact quotient, a rational, compared
  with \<open>3/10\<close>.
\<close>

definition get_ngrams :: "string \<Rightarrow> nat \<Rightarrow> string set" where
  "get_ngrams word n = set (map (\<lambda>i. take n (drop i word)) [0 ..< length word + 1 - n])"

definition combined_ngrams :: "string \<Rightarrow> string set" where
  "combined_ngrams word = get_ngrams word 2 \<union> get_ngrams word 3"

definition jaccard_similarity :: "string set \<Rightarrow> string set \<Rightarrow> rat" where
  "jaccard_similarity set1 set2 =
     (let intersection = set1 \<inter> set2;
          union = set1 \<union> set2
      in if union \<noteq> {} then of_nat (card intersection) / of_nat (card union) else 0)"

definition jaccard_eligible ::
  "string \<Rightarrow> (string, int) dict \<Rightarrow> rat \<Rightarrow> int \<Rightarrow> (string \<times> rat \<times> int) list" where
  \<comment> \<open>the list \<open>candidates\<close> before it is sorted\<close>
  "jaccard_eligible word vocabulary min_similarity min_df =
     (let word_ngrams = combined_ngrams word
      in concat (map (\<lambda>(vocab_word, df).
           if df \<ge> min_df then
             let vocab_ngrams = combined_ngrams vocab_word;
                 similarity = jaccard_similarity word_ngrams vocab_ngrams
             in if similarity \<ge> min_similarity then [(vocab_word, similarity, df)] else []
           else []) vocabulary))"

definition jaccard_ranked ::
  "string \<Rightarrow> (string, int) dict \<Rightarrow> nat \<Rightarrow> rat \<Rightarrow> int \<Rightarrow> (string \<times> rat \<times> int) list" where
  \<comment> \<open>\<open>candidates[:top_n]\<close> after the stable sort on \<open>(-similarity, -df)\<close>\<close>
  "jaccard_ranked word vocabulary top_n min_similarity min_df =
     take top_n
       (sort_key (\<lambda>(w, similarity, df). (- similarity, - df))
          (jaccard_eligible word vocabulary min_similarity min_df))"

definition find_jaccard_candidates ::
  "string \<Rightarrow> (string, int) dict \<Rightarrow> nat \<Rightarrow> rat \<Rightarrow> int \<Rightarrow> string list" where
  "find_jaccard_candidates word vocabulary top_n min_similarity min_df =
     map fst (jaccard_ranked word vocabulary top_n min_similarity min_df)"

definition find_edit_distance_candidates ::
  "(string \<Rightarrow> string \<Rightarrow> nat) \<Rightarrow> string \<Rightarrow> (string, int) dict \<Rightarrow> nat \<Rightarrow> nat \<Rightarrow> string list" where
  "find_edit_distance_candidates distance word vocabulary max_distance top_n =
     (let candidates =
            map (\<lambda>vocab_word. (vocab_word, distance word vocab_word))
              (filter (\<lambda>vocab_word. distance word vocab_word \<le> max_distance)
                 (dict_keys vocabulary))
      in map fst (take top_n (sort_key snd candidates)))"

definition get_best_candidates ::
  "(string \<Rightarrow> string \<Rightarrow> nat) \<Rightarrow> string \<Rightarrow> (string, int) dict \<Rightarrow> string list" where
  \<comment> \<open>the defaults of the two finders: top 7, similarity 0.3, frequency 20; distance 2, top 5\<close>
  "get_best_candidates distance word vocabulary =
     (let candidates = find_jaccard_candidates word vocabulary 7 (3 / 10) 20;
          candidates = (if candidates = []
                        then find_edit_distance_candidates distance word vocabulary 2 5
                        else candidates)
      in if candidates \<noteq> [] then candidates else [word])"

section \<open>Index construction: the reduction step\<close>

text \<open>
  Each worker returns the result of one document; the builder then folds the
  results, in the order it is handed them, into the shared index. Only this
  reduction is modelled: reading, tokenising and stemming a document are the
  collaborators' work.
\<close>

subsection \<open>Biword index (biword\_index.py)\<close>

type_synonym biword_index = "(string \<times> string, int set) dict"

definition add_biword :: "int \<Rightarrow> string \<times> string \<Rightarrow> biword_index \<Rightarrow> biword_index" where
  \<comment> \<open>\<open>biword_index[biword].add(doc_id)\<close> on a \<open>defaultdict(set)\<close>\<close>
  "add_biword doc_id biword biword_index =
     AList.update biword (insert doc_id (dict_get biword_index biword {})) biword_index"

definition merge_biword_results ::
  "(int \<times> (string \<times> string) list) list \<Rightarrow> biword_index \<Rightarrow> biword_index" where
  \<comment> \<open>\<open>for future in futures: doc_id, biwords = future.result(); for biword in biwords: ...\<close>\<close>
  "merge_biword_results results biword_index =
     fold (\<lambda>(doc_id, biwords) biword_index. fold (add_biword doc_id) biwords biword_index)
       results biword_index"

definition build_biword_index :: "(int \<times> (string \<times> string) list) list \<Rightarrow> biword_index" where
  "build_biword_index results = merge_biword_results results []"

subsection \<open>Positional index (positional\_index.py)\<close>

definition add_positions ::
  "int \<Rightarrow> string \<times> int list \<Rightarrow> positional_index \<Rightarrow> positional_index" where
  \<comment> \<open>\<open>positional_index[token][doc_id].extend(pos_list)\<close> on nested defaultdicts\<close>
  "add_positions doc_id entry positional_index =
     (let token = fst entry;
          pos_list = snd entry;
          inner = dict_get positional_index token []
      in AList.update token
           (AList.update doc_id (dict_get inner doc_id [] @ pos_list) inner)
           positional_index)"

definition merge_positional_results ::
  "(int \<times> (string, int list) dict) list \<Rightarrow> positional_index \<Rightarrow> positional_index" where
  \<comment> \<open>\<open>for future in futures: doc_id, positions = future.result();
      for token, pos_list in positions.items(): ...\<close>\<close>
  "merge_positional_results results positional_index =
     fold (\<lambda>(doc_id, positions) positional_index.
             fold (add_positions doc_id) positions positional_index)
       results positional_index"

definition build_positional_index ::
  "(int \<times> (string, int list) dict) list \<Rightarrow> positional_index" where
  "build_positional_index results = merge_positional_results results []"

definition positional_view :: "positional_index \<Rightarrow> string \<Rightarrow> (int \<Rightarrow> int list option) option" where
  \<comment> \<open>what \<open>==\<close> compares on a dict of dicts: the keys, and under each key the
      inner dict as a mapping, whatever the insertion order\<close>
  "positional_view positional_index token = map_option map_of (map_of positional_index token)"

definition bw_upd ::
  "int \<Rightarrow> string \<times> string \<Rightarrow> (string \<times> string \<rightharpoonup> int set) \<Rightarrow> (string \<times> string \<rightharpoonup> int set)" where
  \<comment> \<open>\<open>add_biword\<close> read on the mapping the dict stands for\<close>
  "bw_upd d b M = M(b \<mapsto> insert d (case M b of None \<Rightarrow> {} | Some s \<Rightarrow> s))"

definition pos_upd ::
  "int \<Rightarrow> string \<times> int list \<Rightarrow> (string \<Rightarrow> (int \<Rightarrow> int list option) option)
     \<Rightarrow> (string \<Rightarrow> (int \<Rightarrow> int list option) option)" where
  \<comment> \<open>\<open>add_positions\<close> read on the mapping of mappings the nested dict stands for\<close>
  "pos_upd d e V =
     (let m = (case V (fst e) of None \<Rightarrow> Map.empty | Some m \<Rightarrow> m)
      in V(fst e \<mapsto> m(d \<mapsto> (case m d of None \<Rightarrow> [] | Some l \<Rightarrow> l) @ snd e)))"

section \<open>Boolean query engine (boolean.py)\<close>


subsection \<open>Tokens\<close>

definition is_word_char :: "char \<Rightarrow> bool" where
  \<comment> \<open>the characters \<open>\w\<close> matches in a \<open>str\<close> pattern: the alphanumeric ones and the
      underscore\<close>
  "is_word_char c =
     (let n = (of_char c :: nat)
      in (48 \<le> n \<and> n \<le> 57) \<or> (65 \<le> n \<and> n \<le> 90) \<or> n = 95 \<or> (97 \<le> n \<and> n \<le> 122) \<or>
         n = 170 \<or> n = 178 \<or> n = 179 \<or> n = 181 \<or> n = 185 \<or> n = 186 \<or>
         (188 \<le> n \<and> n \<le> 190) \<or> (192 \<le> n \<and> n \<le> 214) \<or> (216 \<le> n \<and> n \<le> 246) \<or>
         (248 \<le> n \<and> n \<le> 255))"

function re_tokens :: "string \<Rightarrow> string list" where
  \<comment> \<open>\<open>re.findall\<close> with the pattern \<open>\(|\)|\bAND\b|\bOR\b|\bNOT\b|\w+\<close>, case
      ignored. The scan is never inside a run of word characters when it tries a
      match, so an operator alternative, which must end at a word boundary, matches
      exactly the runs \<open>\w+\<close> would match: every match is one parenthesis or one
      maximal run of word characters, and any other character is skipped.\<close>
  "re_tokens [] = []"
| "re_tokens (c # cs) =
     (if c = CHR ''('' \<or> c = CHR '')'' then [c] # re_tokens cs
      else if is_word_char c then
        takeWhile is_word_char (c # cs) # re_tokens (dropWhile is_word_char cs)
      else re_tokens cs)"
  by pat_completeness auto
termination
  by (relation "measure length") (auto simp: less_Suc_eq_le length_dropWhile_le)

definition standardize :: "string \<Rightarrow> string" where
  \<comment> \<open>the body of the loop over the matches\<close>
  "standardize token =
     (if upper token \<in> {''AND'', ''OR'', ''NOT''} then upper token
      else if token \<in> {''('', '')''} then token
      else lower token)"

definition tokenize :: "string \<Rightarrow> string list" where
  "tokenize query = map standardize (re_tokens query)"

subsection \<open>The recursive descent parser\<close>

text \<open>
  Of the parser object's fields only \<open>index\<close> changes: each method takes it and
  returns the new one beside its result; \<open>tokens\<close>, \<open>inverted_index\<close> and
  \<open>all_docs\<close> are passed along unchanged. The methods call each other recursively,
  so they carry a fuel \<open>n\<close>, spent at each operator or opening parenthesis that is
  consumed; \<open>None\<close> means the fuel ran out. Python's own recursion limit is not
  modelled.
\<close>

definition current_token :: "string list \<Rightarrow> nat \<Rightarrow> string option" where
  "current_token tokens index = (if index < length tokens then Some (tokens ! index) else None)"

definition str_token :: "string option \<Rightarrow> string" where
  \<comment> \<open>how an f-string prints the current token\<close>
  "str_token t = (case t of None \<Rightarrow> ''None'' | Some s \<Rightarrow> s)"

definition eat :: "string list \<Rightarrow> nat \<Rightarrow> string \<Rightarrow> py_error + nat" where
  "eat tokens index token =
     (if current_token tokens index = Some token then Inr (index + 1)
      else Inl (Exception (''Expected token '' @ [CHR 0x27] @ token @ [CHR 0x27] @ '', got ''
                  @ [CHR 0x27] @ str_token (current_token tokens index) @ [CHR 0x27])))"

function parse_or ::
    "nat \<Rightarrow> string list \<Rightarrow> (string, int set) dict \<Rightarrow> int set \<Rightarrow> nat
       \<Rightarrow> (py_error + int set \<times> nat) option"
  and parse_or_loop ::
    "nat \<Rightarrow> string list \<Rightarrow> (string, int set) dict \<Rightarrow> int set \<Rightarrow> int set \<Rightarrow> nat
       \<Rightarrow> (py_error + int set \<times> nat) option"
  and parse_and ::
    "nat \<Rightarrow> string list \<Rightarrow> (string, int set) dict \<Rightarrow> int set \<Rightarrow> nat
       \<Rightarrow> (py_error + int set \<times> nat) option"
  and parse_and_loop ::
    "nat \<Rightarrow> string list \<Rightarrow> (string, int set) dict \<Rightarrow> int set \<Rightarrow> int set \<Rightarrow> nat
       \<Rightarrow> (py_error + int set \<times> nat) option"
  and parse_not ::
    "nat \<Rightarrow> string list \<Rightarrow> (string, int set) dict \<Rightarrow> int set \<Rightarrow> nat
       \<Rightarrow> (py_error + int set \<times> nat) option"
  and parse_primary ::
    "nat \<Rightarrow> string list \<Rightarrow> (string, int set) dict \<Rightarrow> int set \<Rightarrow> nat
       \<Rightarrow> (py_error + int set \<times> nat) option"
where
  "parse_or n tokens inverted_index all_docs index =
     (case parse_and n tokens inverted_index all_docs index of
        None \<Rightarrow> None
      | Some (Inl e) \<Rightarrow> Some (Inl e)
      | Some (Inr (result, index)) \<Rightarrow>
          parse_or_loop n tokens inverted_index all_docs result index)"
| "parse_or_loop n tokens inverted_index all_docs result index =
     (if current_token tokens index = Some ''OR'' then
        (case n of
           0 \<Rightarrow> None
         | Suc m \<Rightarrow>
             (case eat tokens index ''OR'' of
                Inl e \<Rightarrow> Some (Inl e)
              | Inr index \<Rightarrow>
                  (case parse_and m tokens inverted_index all_docs index of
                     None \<Rightarrow> None
                   | Some (Inl e) \<Rightarrow> Some (Inl e)
                   | Some (Inr (right, index)) \<Rightarrow>
                       parse_or_loop m tokens inverted_index all_docs (result \<union> right) index)))
      else Some (Inr (result, index)))"
| "parse_and n tokens inverted_index all_docs index =
     (case parse_not n tokens inverted_index all_docs index of
        None \<Rightarrow> None
      | Some (Inl e) \<Rightarrow> Some (Inl e)
      | Some (Inr (result, index)) \<Rightarrow>
          parse_and_loop n tokens inverted_index all_docs result index)"
| "parse_and_loop n tokens inverted_index all_docs result index =
     (if current_token tokens index = Some ''AND'' then
        (case n of
           0 \<Rightarrow> None
         | Suc m \<Rightarrow>
             (case eat tokens index ''AND'' of
                Inl e \<Rightarrow> Some (Inl e)
              | Inr index \<Rightarrow>
                  (case parse_not m tokens inverted_index all_docs index of
                     None \<Rightarrow> None
                   | Some (Inl e) \<Rightarrow> Some (Inl e)
                   | Some (Inr (right, index)) \<Rightarrow>
                       parse_and_loop m tokens inverted_index all_docs (result \<inter> right) index)))
      else Some (Inr (result, index)))"
| "parse_not n tokens inverted_index all_docs index =
     (if current_token tokens index = Some ''NOT'' then
        (case n of
           0 \<Rightarrow> None
         | Suc m \<Rightarrow>
             (case eat tokens index ''NOT'' of
                Inl e \<Rightarrow> Some (Inl e)
              | Inr index \<Rightarrow>
                  (case parse_not m tokens inverted_index all_docs index of
                     None \<Rightarrow> None
                   | Some (Inl e) \<Rightarrow> Some (Inl e)
                   | Some (Inr (operand, index)) \<Rightarrow> Some (Inr (all_docs - operand, index)))))
      else parse_primary n tokens inverted_index all_docs index)"
| "parse_primary n tokens inverted_index all_docs index =
     (let token = current_token tokens index
      in if token = Some ''('' then
           (case n of
              0 \<Rightarrow> None
            | Suc m \<Rightarrow>
                (case eat tokens index ''('' of
                   Inl e \<Rightarrow> Some (Inl e)
                 | Inr index \<Rightarrow>
                     (case parse_or m tokens inverted_index all_docs index of
                        None \<Rightarrow> None
                      | Some (Inl e) \<Rightarrow> Some (Inl e)
                      | Some (Inr (result, index)) \<Rightarrow>
                          (case eat tokens index '')'' of
                             Inl e \<Rightarrow> Some (Inl e)
                           | Inr index \<Rightarrow> Some (Inr (result, index))))))
         else
           Some (Inr (case token of None \<Rightarrow> {} | Some t \<Rightarrow> dict_get inverted_index t {},
                      index + 1)))"
  by pat_completeness auto
termination
  by (relation "measure (\<lambda>x. case x of
          Inl (Inl (n, _)) \<Rightarrow> 4 * n + 3
        | Inl (Inr (Inl (n, _))) \<Rightarrow> 4 * n
        | Inl (Inr (Inr (n, _))) \<Rightarrow> 4 * n + 2
        | Inr (Inl (n, _)) \<Rightarrow> 4 * n
        | Inr (Inr (Inl (n, _))) \<Rightarrow> 4 * n + 1
        | Inr (Inr (Inr (n, _))) \<Rightarrow> 4 * n)")
     simp_all

declare parse_or.simps [simp del] parse_or_loop.simps [simp del] parse_and.simps [simp del]
  parse_and_loop.simps [simp del] parse_not.simps [simp del] parse_primary.simps [simp del]

definition parse_query ::
  "nat \<Rightarrow> string list \<Rightarrow> (string, int set) dict \<Rightarrow> int set \<Rightarrow> nat
     \<Rightarrow> (py_error + int set \<times> nat) option" where
  "parse_query n tokens inverted_index all_docs index =
     parse_or n tokens inverted_index all_docs index"

definition process_boolean_query ::
  "string \<Rightarrow> (string, int set) dict \<Rightarrow> int set \<Rightarrow> (py_error + int set) option" where
  \<comment> \<open>the parser starts at index 0; one unit of fuel for each token is enough\<close>
  "process_boolean_query query inverted_index all_docs =
     (let tokens = tokenize query
      in case parse_query (length tokens) tokens inverted_index all_docs 0 of
           None \<Rightarrow> None
         | Some (Inl e) \<Rightarrow> Some (Inl e)
         | Some (Inr (result, index)) \<Rightarrow> Some (Inr result))"

definition is_term :: "string \<Rightarrow> bool" where
  \<comment> \<open>a term as a query names it: one run of word characters, in lower case, that is
      not an operator\<close>
  "is_term t =
     (t \<noteq> [] \<and> list_all is_word_char t \<and> lower t = t \<and>
      upper t \<notin> {''AND'', ''OR'', ''NOT''})"

definition close_diagnostic :: "string option \<Rightarrow> py_error" where
  \<comment> \<open>what \<open>eat(')')\<close> raises when the current token is \<open>actual\<close>\<close>
  "close_diagnostic actual =
     Exception (''Expected token '' @ [CHR 0x27] @ '')'' @ [CHR 0x27] @ '', got ''
                  @ [CHR 0x27] @ str_token actual @ [CHR 0x27])"

definition unclosed_group ::
  "string list \<Rightarrow> (string, int set) dict \<Rightarrow> int set \<Rightarrow> nat \<Rightarrow> nat \<Rightarrow> bool" where
  \<comment> \<open>the token at \<open>i\<close> opens a group, the parse of its sub-query ends at \<open>j\<close>, and
      the token at \<open>j\<close> is not the closing parenthesis\<close>
  "unclosed_group tokens inverted_index all_docs i j =
     (current_token tokens i = Some ''('' \<and>
      (case parse_query (length tokens) tokens inverted_index all_docs (i + 1) of
         Some (Inr (result, index)) \<Rightarrow> index = j
       | _ \<Rightarrow> False) \<and>
      current_token tokens j \<noteq> Some '')'')"

section \<open>Saving the term index (inverted\_index.py)\<close>

definition digit_char :: "nat \<Rightarrow> char" where
  "digit_char d = char_of (48 + d)"

function str_nat :: "nat \<Rightarrow> string" where
  \<comment> \<open>the decimal digits of a natural number, most significant first\<close>
  "str_nat n = (if n < 10 then [digit_char n] else str_nat (n div 10) @ [digit_char (n mod 10)])"
  by pat_completeness auto
termination
  by (relation "measure id") simp_all

definition str_int :: "int \<Rightarrow> string" where
  \<comment> \<open>\<open>str(i)\<close> for an integer\<close>
  "str_int i = (if i < 0 then CHR ''-'' # str_nat (nat (- i)) else str_nat (nat i))"

fun join :: "string \<Rightarrow> string list \<Rightarrow> string" where
  \<comment> \<open>\<open>sep.join(parts)\<close>\<close>
  "join sep [] = []"
| "join sep [x] = x"
| "join sep (x # y # ys) = x @ sep @ join sep (y # ys)"

definition save_line :: "string \<times> int set \<Rightarrow> string" where
  \<comment> \<open>the body of the loop: \<open>f.write(f"{term} {df} {postings_list}\n")\<close>\<close>
  "save_line item =
     (let term = fst item;
          postings = snd item;
          df = int (card postings);
          postings_list = join '','' (map str_int (sorted_list_of_set postings))
      in term @ '' '' @ str_int df @ '' '' @ postings_list @ [LF])"

definition save_inverted_index :: "(string, int set) dict \<Rightarrow> string" where
  \<comment> \<open>the text written to the file. \<open>sorted(inverted_index.items())\<close> orders the
      items by term: the keys of a dict are distinct, so the comparison of two items
      never reaches their posting sets.\<close>
  "save_inverted_index inverted_index = concat (map save_line (sort_key fst inverted_index))"

definition saveable_item :: "string \<times> int set \<Rightarrow> bool" where
  \<comment> \<open>an entry of a term index as the builder makes it: the term non-empty and free
      of whitespace, the posting set finite, non-empty and of non-negative IDs\<close>
  "saveable_item item =
     (fst item \<noteq> [] \<and> list_all (\<lambda>c. \<not> is_space c) (fst item) \<and>
      finite (snd item) \<and> snd item \<noteq> {} \<and> (\<forall>d \<in> snd item. 0 \<le> d))"

definition saveable :: "(string, int set) dict \<Rightarrow> bool" where
  \<comment> \<open>a dict (distinct keys) of such entries\<close>
  "saveable inverted_index =
     (distinct (dict_keys inverted_index) \<and> list_all saveable_item inverted_index)"

definition line_body :: "string \<times> int set \<Rightarrow> string" where
  \<comment> \<open>a saved line without its line feed\<close>
  "line_body item =
     fst item @ '' '' @ str_int (int (card (snd item))) @ '' '' @
       join '','' (map str_int (sorted_list_of_set (snd item)))"

definition is_digits :: "string \<Rightarrow> bool" where
  \<comment> \<open>a non-empty string of the digits 0 to 9\<close>
  "is_digits s = (s \<noteq> [] \<and> (\<forall>c \<in> set s. \<exists>d < 10. c = digit_char d))"

definition digits_or_commas :: "string \<Rightarrow> bool" where
  "digits_or_commas s = (\<forall>c \<in> set s. c = CHR '','' \<or> (\<exists>d < 10. c = digit_char d))"

section \<open>Properties of the posting algebra\<close>

lemma gallop_unguarded:
  "0 < hi \<Longrightarrow>
   gallop list2 element lo hi =
     (if hi < length list2 \<and> list2 ! hi < element
      then gallop list2 element hi (hi * 2) else (lo, hi))"
  by simp

text \<open>
  C1. Linear and galloping intersection are meant to agree on ascending sequences
  (\<open>measure_intersection_algorithms\<close> reports a mismatch otherwise). They do not:
  the probing loop stops with \<open>list2[hi] \<ge> element\<close> and the binary search then
  looks at \<open>list2[lo:hi]\<close>, which leaves index \<open>hi\<close> out. On the strictly ascending
  lists \<open>[2]\<close> and \<open>[1, 2]\<close> the linear merge finds \<open>2\<close> and galloping finds
  nothing; on two copies of \<open>[1, 2]\<close> galloping finds only \<open>1\<close>.
\<close>

theorem c1_galloping_misses_probe_bound:
  "sorted_wrt (<) [2 :: int] \<and> sorted_wrt (<) [1, 2 :: int] \<and>
   intersect_linear [2] [1, 2] = [2] \<and>
   intersect_galloping [2] [1, 2] = Inr [] \<and>
   intersect_linear [1, 2] [1, 2] = [1, 2] \<and>
   intersect_galloping [1, 2] [1, 2] = Inr [1]"
  by (simp add: intersect_linear_def intersect_galloping_def)

section \<open>Properties of the phrase engines\<close>

lemma phrase_to_biwords_short:
  "length (split_ws (lower phrase)) < 2 \<Longrightarrow> phrase_to_biwords stem phrase = []"
  by (auto simp: phrase_to_biwords_def Let_def)

text \<open>
  C10. A phrase that splits into fewer than two words has no biword, and biword
  retrieval returns the empty set for it, whatever the index holds.
\<close>

theorem c10_short_phrase_retrieves_nothing:
  "length (split_ws (lower phrase)) < 2 \<Longrightarrow>
   retrieve_documents stem phrase biword_index = {}"
  by (simp add: retrieve_documents_def phrase_to_biwords_short)

theorem c10_short_phrase_retrieves_nothing_witness:
  "length (split_ws (lower ''Madrid'')) < 2 \<and>
   retrieve_documents (\<lambda>w. w) ''Madrid'' [(''madrid'', {0, 1}), (''real_madrid'', {0, 1})] = {}"
proof -
  have h: "length (split_ws (lower ''Madrid'')) < 2" by code_simp
  show ?thesis
    using h c10_short_phrase_retrieves_nothing [OF h, of "\<lambda>w. w"
        "[(''madrid'', {0, 1}), (''real_madrid'', {0, 1})]"]
    by simp
qed

text \<open>
  C5. The biword engine stems every query word; the positional engine does not: its
  word list is the lowercased split and nothing more. The positional index is built
  from stemmed tokens, so for a document \<open>real wins\<close>, indexed as \<open>real win\<close>, the
  phrase \<open>real wins\<close> finds nothing while \<open>real win\<close> finds the document.
\<close>

theorem c5_positional_engine_does_not_stem:
  "phrase_to_biwords stem ''real wins'' = [stem ''real'' @ ''_'' @ stem ''wins''] \<and>
   phrase_words ''real wins'' = [''real'', ''wins''] \<and>
   phrase_query ''real wins'' [(''real'', [(0, [0])]), (''win'', [(0, [1])])] = {} \<and>
   phrase_query ''real win'' [(''real'', [(0, [0])]), (''win'', [(0, [1])])] = {0}"
proof -
  have w: "split_ws (lower ''real wins'') = [''real'', ''wins'']" by code_simp
  have a: "phrase_to_biwords stem ''real wins'' = [stem ''real'' @ ''_'' @ stem ''wins'']"
    by (simp add: phrase_to_biwords_def w)
  have b: "phrase_words ''real wins'' = [''real'', ''wins'']"
    by (simp add: phrase_words_def w)
  have c: "phrase_query ''real wins'' [(''real'', [(0, [0])]), (''win'', [(0, [1])])] = {}"
    by code_simp
  have d: "phrase_query ''real win'' [(''real'', [(0, [0])]), (''win'', [(0, [1])])] = {0}"
    by code_simp
  from a b c d show ?thesis by blast
qed

theorem c5_positional_engine_does_not_stem_witness:
  "phrase_to_biwords (\<lambda>w. w) ''real wins'' = [''real_wins''] \<and>
   phrase_words ''real wins'' = [''real'', ''wins''] \<and>
   phrase_query ''real wins'' [(''real'', [(0, [0])]), (''win'', [(0, [1])])] = {} \<and>
   phrase_query ''real win'' [(''real'', [(0, [0])]), (''win'', [(0, [1])])] = {0}"
  using c5_positional_engine_does_not_stem [of "\<lambda>w. w"] by simp

lemma fold_inter_keys:
  "fold (\<lambda>w r. r \<inter> f w) ws init = init \<inter> (\<Inter>w \<in> set ws. f w)"
  by (induction ws arbitrary: init) auto

lemma candidate_docs_Inter:
  assumes "words \<noteq> []"
  shows "candidate_docs words idx = (\<Inter>w \<in> set words. docs_of idx w)"
proof -
  from assms obtain w ws where ws: "words = w # ws" by (cases words) auto
  show ?thesis
    unfolding ws candidate_docs_def docs_of_def by (simp add: fold_inter_keys)
qed

lemma positions_of_nonempty_doc:
  assumes "p \<in> set (positions_of idx w d)"
  shows "d \<in> docs_of idx w"
proof -
  from assms have "map_of (dict_get idx w []) d \<noteq> None"
    by (cases "map_of (dict_get idx w []) d")
       (simp_all add: positions_of_def dict_get_def[of "dict_get idx w []"])
  then have "d \<in> fst ` set (dict_get idx w [])"
    by (simp add: map_of_eq_None_iff)
  then show ?thesis by (simp add: docs_of_def dict_keys_def)
qed

lemma phrase_query_iff:
  "doc_id \<in> phrase_query phrase idx \<longleftrightarrow>
     phrase_words phrase \<noteq> [] \<and>
     (\<exists>p \<in> set (positions_of idx (phrase_words phrase ! 0) doc_id).
        \<forall>i < length (phrase_words phrase).
          p + int i \<in> set (positions_of idx (phrase_words phrase ! i) doc_id))"
  (is "?L \<longleftrightarrow> ?R")
proof (cases "phrase_words phrase = []")
  case True
  then show ?thesis by (simp add: phrase_query_def)
next
  case False
  define words where "words = phrase_words phrase"
  have ne: "words \<noteq> []" using False by (simp add: words_def)
  then have len: "0 < length words" by simp
  have L: "?L \<longleftrightarrow> doc_id \<in> candidate_docs words idx \<and>
      (\<exists>pos \<in> set (positions_of idx (words ! 0) doc_id).
         \<forall>i \<in> {1 ..< length words}. pos + int i \<in> set (positions_of idx (words ! i) doc_id))"
    using ne len by (simp add: phrase_query_def words_def[symmetric] Let_def positions_of_def)
  show ?thesis
  proof
    assume ?L
    with L obtain pos where pos: "pos \<in> set (positions_of idx (words ! 0) doc_id)"
      and rest: "\<forall>i \<in> {1 ..< length words}. pos + int i \<in> set (positions_of idx (words ! i) doc_id)"
      by blast
    have "\<forall>i < length words. pos + int i \<in> set (positions_of idx (words ! i) doc_id)"
    proof (intro allI impI)
      fix i assume "i < length words"
      show "pos + int i \<in> set (positions_of idx (words ! i) doc_id)"
      proof (cases "i = 0")
        case True then show ?thesis using pos by simp
      next
        case False
        then have "i \<in> {1 ..< length words}" using \<open>i < length words\<close> by simp
        then show ?thesis using rest by blast
      qed
    qed
    with pos ne show ?R unfolding words_def by blast
  next
    assume ?R
    then obtain p where p: "p \<in> set (positions_of idx (words ! 0) doc_id)"
      and all: "\<forall>i < length words. p + int i \<in> set (positions_of idx (words ! i) doc_id)"
      unfolding words_def by blast
    have "doc_id \<in> docs_of idx w" if "w \<in> set words" for w
    proof -
      from that obtain i where "i < length words" "words ! i = w"
        by (auto simp: in_set_conv_nth)
      with all have "p + int i \<in> set (positions_of idx w doc_id)" by auto
      then show ?thesis by (rule positions_of_nonempty_doc)
    qed
    then have "doc_id \<in> candidate_docs words idx"
      by (simp add: candidate_docs_Inter[OF ne])
    moreover have "\<forall>i \<in> {1 ..< length words}. p + int i \<in> set (positions_of idx (words ! i) doc_id)"
      using all by simp
    ultimately show ?L using L p by blast
  qed
qed

lemma phrase_query_subset:
  "phrase_query phrase idx \<subseteq> (\<Inter>w \<in> set (phrase_words phrase). docs_of idx w)"
proof (cases "phrase_words phrase = []")
  case True
  then show ?thesis by (simp add: phrase_query_def)
next
  case False
  then show ?thesis
    by (auto simp: phrase_query_def Let_def candidate_docs_Inter)
qed

text \<open>
  C6. The positional result lies inside the intersection of the document sets of the
  phrase's words, and a document is in it exactly when some offset \<open>p\<close> of the first
  word's position list has the word of index \<open>i\<close> at position \<open>p + i\<close>, for every
  \<open>i\<close>.
\<close>

theorem c6_positional_phrase_exact:
  "phrase_query phrase idx \<subseteq> (\<Inter>w \<in> set (phrase_words phrase). docs_of idx w) \<and>
   (doc_id \<in> phrase_query phrase idx \<longleftrightarrow>
      phrase_words phrase \<noteq> [] \<and>
      (\<exists>p \<in> set (positions_of idx (phrase_words phrase ! 0) doc_id).
         \<forall>i < length (phrase_words phrase).
           p + int i \<in> set (positions_of idx (phrase_words phrase ! i) doc_id)))"
  using phrase_query_subset phrase_query_iff by blast

theorem c6_positional_phrase_exact_witness:
  "phrase_query ''real madrid''
      [(''real'', [(0, [0]), (1, [2])]), (''madrid'', [(0, [1]), (1, [4])]), (''win'', [(0, [2])])]
     \<subseteq> {0, 1} \<and>
   0 \<in> phrase_query ''real madrid''
      [(''real'', [(0, [0]), (1, [2])]), (''madrid'', [(0, [1]), (1, [4])]), (''win'', [(0, [2])])]"
proof -
  have pw: "phrase_words ''real madrid'' = [''real'', ''madrid'']" by code_simp
  show ?thesis
    using c6_positional_phrase_exact [of "''real madrid''"
      "[(''real'', [(0, [0]), (1, [2])]), (''madrid'', [(0, [1]), (1, [4])]), (''win'', [(0, [2])])]" 0]
    by (auto simp: pw docs_of_def positions_of_def dict_get_def dict_keys_def less_Suc_eq)
qed

section \<open>Properties of the index loaders\<close>

lemma load_inverted_index_skips_short_line:
  "length (split_ws (strip line)) < 3 \<Longrightarrow>
   load_inverted_index_lines (line # rest) inverted_index =
     load_inverted_index_lines rest inverted_index"
  by simp

text \<open>
  C4. Every loader is meant to skip a line with too few fields and go on. The term
  index loader does (\<open>if len(parts) < 3: continue\<close>). The vocabulary loader and the
  positional loader have no such test: on an empty line, or a line holding a term
  alone, \<open>parts[0]\<close> or \<open>parts[1]\<close> raises IndexError in the first, and the
  unpacking of the split line or of \<open>posting.split(':')\<close> raises ValueError in the
  second, which ends the whole load.
\<close>

theorem c4_loaders_raise_on_short_line:
  "load_inverted_index (''real 2 0,1'' @ [LF] @ [LF] @ ''madrid'' @ [LF])
     = Inr [(''real'', {0, 1})] \<and>
   load_vocabulary_with_frequency (''real 2 0,1'' @ [LF] @ [LF]) = Inl IndexError \<and>
   load_vocabulary_with_frequency (''real 2 0,1'' @ [LF] @ ''madrid'' @ [LF]) = Inl IndexError \<and>
   load_positional_index (''real 0:0,5; 1:2'' @ [LF] @ [LF]) = Inl ValueError \<and>
   load_positional_index (''real 0:0,5; 1:2'' @ [LF] @ ''madrid 0'' @ [LF]) = Inl ValueError"
  by code_simp

section \<open>Properties of the correction engine\<close>

lemma jaccard_eligible_iff:
  "(w, s, df) \<in> set (jaccard_eligible word vocabulary min_similarity min_df) \<longleftrightarrow>
     (w, df) \<in> set vocabulary \<and> min_df \<le> df \<and>
     s = jaccard_similarity (combined_ngrams word) (combined_ngrams w) \<and> min_similarity \<le> s"
  by (auto simp: jaccard_eligible_def Let_def split: if_splits)

lemma jaccard_ranked_subset:
  "set (jaccard_ranked word vocabulary top_n min_similarity min_df)
     \<subseteq> set (jaccard_eligible word vocabulary min_similarity min_df)"
  unfolding jaccard_ranked_def using set_take_subset by fastforce

lemma jaccard_ranked_sorted:
  "sorted (map (\<lambda>(w, similarity, df). (- similarity, - df))
     (jaccard_ranked word vocabulary top_n min_similarity min_df))"
  unfolding jaccard_ranked_def take_map [symmetric]
  by (rule sorted_wrt_take) (rule sorted_sort_key)

lemma jaccard_ranked_best:
  assumes x: "x \<in> set (jaccard_eligible word vocabulary min_similarity min_df)"
    and nx: "x \<notin> set (jaccard_ranked word vocabulary top_n min_similarity min_df)"
    and y: "y \<in> set (jaccard_ranked word vocabulary top_n min_similarity min_df)"
  shows "(\<lambda>(w, similarity, df). (- similarity, - df)) y \<le> (\<lambda>(w, similarity, df). (- similarity, - df)) x"
proof -
  define key :: "string \<times> rat \<times> int \<Rightarrow> rat \<times> int" where "key = (\<lambda>(w, similarity, df). (- similarity, - df))"
  define L where "L = sort_key key (jaccard_eligible word vocabulary min_similarity min_df)"
  have r: "jaccard_ranked word vocabulary top_n min_similarity min_df = take top_n L"
    by (simp add: jaccard_ranked_def L_def key_def)
  have s: "sorted (map key L)" by (simp add: L_def)
  have "map key L = map key (take top_n L) @ map key (drop top_n L)"
    by (metis append_take_drop_id map_append)
  with s have "sorted (map key (take top_n L) @ map key (drop top_n L))" by simp
  then have *: "\<forall>a \<in> set (take top_n L). \<forall>b \<in> set (drop top_n L). key a \<le> key b"
    by (auto simp: sorted_append)
  have "x \<in> set L" using x by (simp add: L_def)
  then have "x \<in> set (take top_n L) \<union> set (drop top_n L)"
    by (metis append_take_drop_id set_append)
  with nx r have "x \<in> set (drop top_n L)" by simp
  with * y r show ?thesis by (simp add: key_def)
qed

lemma find_jaccard_candidates_sound:
  assumes "w \<in> set (find_jaccard_candidates word vocabulary top_n min_similarity min_df)"
  shows "\<exists>df. (w, df) \<in> set vocabulary \<and> min_df \<le> df \<and>
           min_similarity \<le> jaccard_similarity (combined_ngrams word) (combined_ngrams w)"
proof -
  from assms obtain s df where
    "(w, s, df) \<in> set (jaccard_ranked word vocabulary top_n min_similarity min_df)"
    by (auto simp: find_jaccard_candidates_def)
  with jaccard_ranked_subset
  have "(w, s, df) \<in> set (jaccard_eligible word vocabulary min_similarity min_df)" by blast
  then show ?thesis by (auto simp: jaccard_eligible_iff)
qed

lemma find_jaccard_candidates_complete:
  assumes "(w, df) \<in> set vocabulary" "min_df \<le> df"
    "min_similarity \<le> jaccard_similarity (combined_ngrams word) (combined_ngrams w)" "0 < top_n"
  shows "find_jaccard_candidates word vocabulary top_n min_similarity min_df \<noteq> []"
proof -
  have "(w, jaccard_similarity (combined_ngrams word) (combined_ngrams w), df)
          \<in> set (jaccard_eligible word vocabulary min_similarity min_df)"
    using assms by (simp add: jaccard_eligible_iff)
  then have "sort_key (\<lambda>(w, similarity, df). (- similarity, - df))
          (jaccard_eligible word vocabulary min_similarity min_df) \<noteq> []"
    by (metis empty_iff list.set(1) set_sort)
  with \<open>0 < top_n\<close> show ?thesis
    by (simp add: find_jaccard_candidates_def jaccard_ranked_def)
qed

lemma find_jaccard_candidates_length:
  "length (find_jaccard_candidates word vocabulary top_n min_similarity min_df) \<le> top_n"
  by (simp add: find_jaccard_candidates_def jaccard_ranked_def)

lemma insort_key_map_commute:
  "insort_key g (f x) (map f xs) = map f (insort_key (\<lambda>v. g (f v)) x xs)"
  by (induction xs) simp_all

lemma sort_key_map_commute:
  "sort_key g (map f xs) = map f (sort_key (\<lambda>v. g (f v)) xs)"
  by (induction xs) (simp_all add: insort_key_map_commute)

lemma edit_candidates_eq:
  "find_edit_distance_candidates distance word vocabulary max_distance top_n =
     take top_n (sort_key (distance word)
       (filter (\<lambda>vocab_word. distance word vocab_word \<le> max_distance) (dict_keys vocabulary)))"
proof -
  show ?thesis
    by (simp add: find_edit_distance_candidates_def Let_def sort_key_map_commute take_map comp_def)
qed

lemma find_edit_distance_candidates_sound:
  "w \<in> set (find_edit_distance_candidates distance word vocabulary max_distance top_n) \<Longrightarrow>
   w \<in> set (dict_keys vocabulary) \<and> distance word w \<le> max_distance"
  unfolding edit_candidates_eq by (auto dest: in_set_takeD)

lemma find_edit_distance_candidates_sorted:
  "sorted (map (distance word)
     (find_edit_distance_candidates distance word vocabulary max_distance top_n))"
  unfolding edit_candidates_eq take_map [symmetric]
  by (rule sorted_wrt_take) (rule sorted_sort_key)

lemma find_edit_distance_candidates_length:
  "length (find_edit_distance_candidates distance word vocabulary max_distance top_n) \<le> top_n"
  unfolding edit_candidates_eq by simp

lemma get_best_candidates_cases:
  "get_best_candidates distance word vocabulary =
     (if find_jaccard_candidates word vocabulary 7 (3 / 10) 20 \<noteq> []
      then find_jaccard_candidates word vocabulary 7 (3 / 10) 20
      else if find_edit_distance_candidates distance word vocabulary 2 5 \<noteq> []
      then find_edit_distance_candidates distance word vocabulary 2 5
      else [word])"
  by (simp add: get_best_candidates_def Let_def)

text \<open>
  C9. The candidate list of a word is never empty. It is the Jaccard selection when
  that is not empty, else the edit-distance selection when that is not empty, else the
  word alone. The Jaccard selection holds only vocabulary terms of frequency at least
  20 and similarity at least 3/10, is not empty as soon as one such term exists, has
  at most 7 entries and is ranked by similarity, then frequency, both descending; the
  edit-distance selection holds only vocabulary terms at distance at most 2, has at
  most 5 entries and is ranked by distance ascending.
\<close>

theorem c9_candidates_never_empty:
  "get_best_candidates distance word vocabulary \<noteq> [] \<and>
   (find_jaccard_candidates word vocabulary 7 (3 / 10) 20 \<noteq> [] \<longrightarrow>
      get_best_candidates distance word vocabulary =
        find_jaccard_candidates word vocabulary 7 (3 / 10) 20) \<and>
   (find_jaccard_candidates word vocabulary 7 (3 / 10) 20 = [] \<and>
    find_edit_distance_candidates distance word vocabulary 2 5 \<noteq> [] \<longrightarrow>
      get_best_candidates distance word vocabulary =
        find_edit_distance_candidates distance word vocabulary 2 5) \<and>
   (find_jaccard_candidates word vocabulary 7 (3 / 10) 20 = [] \<and>
    find_edit_distance_candidates distance word vocabulary 2 5 = [] \<longrightarrow>
      get_best_candidates distance word vocabulary = [word]) \<and>
   (\<forall>w \<in> set (find_jaccard_candidates word vocabulary 7 (3 / 10) 20).
      \<exists>df. (w, df) \<in> set vocabulary \<and> 20 \<le> df \<and>
        3 / 10 \<le> jaccard_similarity (combined_ngrams word) (combined_ngrams w)) \<and>
   ((\<exists>w df. (w, df) \<in> set vocabulary \<and> 20 \<le> df \<and>
        3 / 10 \<le> jaccard_similarity (combined_ngrams word) (combined_ngrams w)) \<longrightarrow>
      find_jaccard_candidates word vocabulary 7 (3 / 10) 20 \<noteq> []) \<and>
   length (find_jaccard_candidates word vocabulary 7 (3 / 10) 20) \<le> 7 \<and>
   sorted (map (\<lambda>(w, similarity, df). (- similarity, - df))
     (jaccard_ranked word vocabulary 7 (3 / 10) 20)) \<and>
   (\<forall>w \<in> set (find_edit_distance_candidates distance word vocabulary 2 5).
      w \<in> set (dict_keys vocabulary) \<and> distance word w \<le> 2) \<and>
   length (find_edit_distance_candidates distance word vocabulary 2 5) \<le> 5 \<and>
   sorted (map (distance word) (find_edit_distance_candidates distance word vocabulary 2 5))"
proof -
  have a: "get_best_candidates distance word vocabulary \<noteq> []"
    by (simp add: get_best_candidates_cases)
  have b: "\<forall>w \<in> set (find_jaccard_candidates word vocabulary 7 (3 / 10) 20).
      \<exists>df. (w, df) \<in> set vocabulary \<and> 20 \<le> df \<and>
        3 / 10 \<le> jaccard_similarity (combined_ngrams word) (combined_ngrams w)"
    using find_jaccard_candidates_sound by blast
  have c: "(\<exists>w df. (w, df) \<in> set vocabulary \<and> 20 \<le> df \<and>
        3 / 10 \<le> jaccard_similarity (combined_ngrams word) (combined_ngrams w)) \<longrightarrow>
      find_jaccard_candidates word vocabulary 7 (3 / 10) 20 \<noteq> []"
    using find_jaccard_candidates_complete [where top_n = 7] by (metis zero_less_numeral)
  have d: "\<forall>w \<in> set (find_edit_distance_candidates distance word vocabulary 2 5).
      w \<in> set (dict_keys vocabulary) \<and> distance word w \<le> 2"
    using find_edit_distance_candidates_sound by blast
  show ?thesis
    using a b c d
    by (simp add: get_best_candidates_cases find_jaccard_candidates_length jaccard_ranked_sorted
        find_edit_distance_candidates_length find_edit_distance_candidates_sorted)
qed

theorem c9_candidates_never_empty_witness:
  "get_best_candidates (\<lambda>a b. if a = b then 0 else length a + length b) ''mdrid''
     [(''madrid'', 25), (''real'', 30), (''madrigal'', 21)] = [''madrid''] \<and>
   get_best_candidates (\<lambda>a b. if a = b then 0 else length a + length b) ''xq''
     [(''madrid'', 25), (''real'', 30), (''xq'', 2)] = [''xq''] \<and>
   get_best_candidates (\<lambda>a b. if a = b then 0 else length a + length b) ''zz''
     [(''madrid'', 25), (''real'', 30)] = [''zz'']"
proof -
  have j1: "find_jaccard_candidates ''mdrid'' [(''madrid'', 25), (''real'', 30), (''madrigal'', 21)] 7 (3 / 10) 20 = [''madrid'']"
    by code_simp
  have j2: "find_jaccard_candidates ''xq'' [(''madrid'', 25), (''real'', 30), (''xq'', 2)] 7 (3 / 10) 20 = []"
    by code_simp
  have e2: "find_edit_distance_candidates (\<lambda>a b. if a = b then 0 else length a + length b) ''xq'' [(''madrid'', 25), (''real'', 30), (''xq'', 2)] 2 5 = [''xq'']"
    by code_simp
  have j3: "find_jaccard_candidates ''zz'' [(''madrid'', 25), (''real'', 30)] 7 (3 / 10) 20 = []"
    by code_simp
  have e3: "find_edit_distance_candidates (\<lambda>a b. if a = b then 0 else length a + length b) ''zz'' [(''madrid'', 25), (''real'', 30)] 2 5 = []"
    by code_simp
  show ?thesis
    using c9_candidates_never_empty [of "\<lambda>a b. if a = b then 0 else length a + length b" "''mdrid''"
                "[(''madrid'', 25), (''real'', 30), (''madrigal'', 21)]"]
          c9_candidates_never_empty [of "\<lambda>a b. if a = b then 0 else length a + length b" "''xq''"
                "[(''madrid'', 25), (''real'', 30), (''xq'', 2)]"]
          c9_candidates_never_empty [of "\<lambda>a b. if a = b then 0 else length a + length b" "''zz''"
                "[(''madrid'', 25), (''real'', 30)]"]
    unfolding j1 j2 e2 j3 e3 by simp
qed

section \<open>Properties of the reduction step\<close>

lemma map_of_add_biword: "map_of (add_biword d b idx) = bw_upd d b (map_of idx)"
  by (simp add: add_biword_def bw_upd_def update_conv' dict_get_def)

lemma map_of_fold_add_biword:
  "map_of (fold (add_biword d) bs idx) = fold (bw_upd d) bs (map_of idx)"
  by (induction bs arbitrary: idx) (simp_all add: map_of_add_biword)

lemma map_of_merge_biword_results:
  "map_of (merge_biword_results rs idx) =
     fold (\<lambda>(d, bs). fold (bw_upd d) bs) rs (map_of idx)"
  unfolding merge_biword_results_def
  by (induction rs arbitrary: idx) (auto simp: map_of_fold_add_biword)

lemma bw_upd_commute: "bw_upd d b \<circ> bw_upd d' b' = bw_upd d' b' \<circ> bw_upd d b"
  by (rule ext) (auto simp: bw_upd_def fun_upd_twist insert_commute)

lemma fold_fold_commute:
  assumes "\<And>x y. x \<in> set xs \<Longrightarrow> y \<in> set ys \<Longrightarrow> f x \<circ> g y = g y \<circ> f x"
  shows "fold f xs \<circ> fold g ys = fold g ys \<circ> fold f xs"
proof -
  have "f x \<circ> fold g ys = fold g ys \<circ> f x" if "x \<in> set xs" for x
    by (rule fold_commute) (simp add: assms that)
  then have "fold g ys \<circ> fold f xs = fold f xs \<circ> fold g ys"
    by (intro fold_commute) simp
  then show ?thesis by simp
qed

lemma biword_permutation:
  assumes "mset results' = mset results"
  shows "map_of (build_biword_index results') = map_of (build_biword_index results)"
proof -
  have "fold (\<lambda>(d, bs). fold (bw_upd d) bs) results' = fold (\<lambda>(d, bs). fold (bw_upd d) bs) results"
  proof (rule fold_multiset_equiv [OF _ assms])
    fix x y :: "int \<times> (string \<times> string) list"
    obtain d bs d' bs' where x: "x = (d, bs)" and y: "y = (d', bs')"
      by (cases x, cases y) blast
    have "fold (bw_upd d) bs \<circ> fold (bw_upd d') bs' = fold (bw_upd d') bs' \<circ> fold (bw_upd d) bs"
      by (rule fold_fold_commute) (rule bw_upd_commute)
    then show "(case x of (d, bs) \<Rightarrow> fold (bw_upd d) bs) \<circ> (case y of (d, bs) \<Rightarrow> fold (bw_upd d) bs) =
          (case y of (d, bs) \<Rightarrow> fold (bw_upd d) bs) \<circ> (case x of (d, bs) \<Rightarrow> fold (bw_upd d) bs)"
      unfolding x y prod.case .
  qed
  then show ?thesis
    by (simp add: build_biword_index_def map_of_merge_biword_results)
qed

lemma view_add_positions:
  "positional_view (add_positions d e idx) = pos_upd d e (positional_view idx)"
proof (rule ext)
  fix t
  define inner where "inner = dict_get idx (fst e) []"
  have mi: "map_of inner = (case positional_view idx (fst e) of None \<Rightarrow> Map.empty | Some m \<Rightarrow> m)"
    by (simp add: inner_def positional_view_def dict_get_def split: option.splits)
  have gi: "dict_get inner d [] = (case map_of inner d of None \<Rightarrow> [] | Some l \<Rightarrow> l)"
    by (simp add: dict_get_def)
  have a: "add_positions d e idx =
      AList.update (fst e) (AList.update d (dict_get inner d [] @ snd e) inner) idx"
    by (simp add: add_positions_def Let_def inner_def)
  show "positional_view (add_positions d e idx) t = pos_upd d e (positional_view idx) t"
  proof (cases "t = fst e")
    case True
    then show ?thesis
      unfolding a by (simp add: positional_view_def update_conv' pos_upd_def Let_def gi mi[unfolded positional_view_def])
  next
    case False
    then show ?thesis
      unfolding a by (simp add: positional_view_def update_conv' pos_upd_def Let_def)
  qed
qed

lemma pos_upd_apply:
  "pos_upd d e V t =
     (if t = fst e
      then Some ((case V (fst e) of None \<Rightarrow> Map.empty | Some m \<Rightarrow> m)
                  (d \<mapsto> (case (case V (fst e) of None \<Rightarrow> Map.empty | Some m \<Rightarrow> m) d of
                             None \<Rightarrow> [] | Some l \<Rightarrow> l) @ snd e))
      else V t)"
  by (simp add: pos_upd_def Let_def)

lemma pos_upd_commute:
  assumes "d \<noteq> d'"
  shows "pos_upd d e \<circ> pos_upd d' e' = pos_upd d' e' \<circ> pos_upd d e"
proof (rule ext, rule ext)
  fix V t
  show "(pos_upd d e \<circ> pos_upd d' e') V t = (pos_upd d' e' \<circ> pos_upd d e) V t"
  proof (cases "fst e = fst e'")
    case True
    show ?thesis
    proof (cases "V (fst e')")
      case None
      with True assms show ?thesis
        by (simp add: pos_upd_apply fun_upd_twist [of d d'])
    next
      case (Some m)
      with True assms show ?thesis
        by (simp add: pos_upd_apply fun_upd_twist [of d d'])
    qed
  next
    case False
    then have "fst e' \<noteq> fst e" by simp
    with False show ?thesis
      by (simp add: pos_upd_apply)
  qed
qed

lemma view_fold_add_positions:
  "positional_view (fold (add_positions d) ps idx) = fold (pos_upd d) ps (positional_view idx)"
  by (induction ps arbitrary: idx) (simp_all add: view_add_positions)

lemma view_merge_positional_results:
  "positional_view (merge_positional_results rs idx) =
     fold (\<lambda>(d, ps). fold (pos_upd d) ps) rs (positional_view idx)"
  unfolding merge_positional_results_def
  by (induction rs arbitrary: idx) (auto simp: view_fold_add_positions)

lemma positional_permutation:
  assumes "mset results' = mset results" and "distinct (map fst results)"
  shows "positional_view (build_positional_index results') =
         positional_view (build_positional_index results)"
proof -
  have "fold (\<lambda>(d, ps). fold (pos_upd d) ps) results' = fold (\<lambda>(d, ps). fold (pos_upd d) ps) results"
  proof (rule fold_multiset_equiv [OF _ assms(1)])
    fix x y :: "int \<times> (string, int list) dict"
    assume "x \<in> set results'" "y \<in> set results'"
    then have xy: "x \<in> set results" "y \<in> set results"
      using assms(1) by (metis set_mset_mset)+
    show "(case x of (d, ps) \<Rightarrow> fold (pos_upd d) ps) \<circ> (case y of (d, ps) \<Rightarrow> fold (pos_upd d) ps) =
          (case y of (d, ps) \<Rightarrow> fold (pos_upd d) ps) \<circ> (case x of (d, ps) \<Rightarrow> fold (pos_upd d) ps)"
    proof (cases "x = y")
      case True then show ?thesis by simp
    next
      case False
      obtain d ps d' ps' where x: "x = (d, ps)" and y: "y = (d', ps')"
        by (cases x, cases y) blast
      from assms(2) have "inj_on fst (set results)"
        by (simp add: distinct_map)
      with xy False have "fst x \<noteq> fst y"
        by (auto dest: inj_onD)
      then have "d \<noteq> d'" by (simp add: x y)
      then have "fold (pos_upd d) ps \<circ> fold (pos_upd d') ps' =
                 fold (pos_upd d') ps' \<circ> fold (pos_upd d) ps"
        by (intro fold_fold_commute pos_upd_commute)
      then show ?thesis
        unfolding x y prod.case .
    qed
  qed
  then show ?thesis
    by (simp add: build_positional_index_def view_merge_positional_results)
qed

text \<open>
  C8. The reduction does not depend on the order in which the documents' results are
  merged: for any permutation of the results the biword index is the same mapping
  from biwords to document sets, and, the results being those of distinct documents,
  the positional index is the same mapping from tokens to per-document position lists.
\<close>

theorem c8_reduction_order_independent:
  assumes "mset biword_results' = mset biword_results"
    and "mset positional_results' = mset positional_results"
    and "distinct (map fst positional_results)"
  shows "map_of (build_biword_index biword_results') = map_of (build_biword_index biword_results) \<and>
         positional_view (build_positional_index positional_results') =
           positional_view (build_positional_index positional_results)"
  using assms biword_permutation positional_permutation by blast

theorem c8_reduction_order_independent_witness:
  "map_of (build_biword_index
      [(1, [(''real'', ''madrid'')]), (0, [(''real'', ''madrid''), (''madrid'', ''win'')])]) =
   map_of (build_biword_index
      [(0, [(''real'', ''madrid''), (''madrid'', ''win'')]), (1, [(''real'', ''madrid'')])]) \<and>
   positional_view (build_positional_index
      [(1, [(''madrid'', [0])]), (0, [(''real'', [0, 3]), (''madrid'', [1])])]) =
   positional_view (build_positional_index
      [(0, [(''real'', [0, 3]), (''madrid'', [1])]), (1, [(''madrid'', [0])])]) \<and>
   build_positional_index
      [(1, [(''madrid'', [0])]), (0, [(''real'', [0, 3]), (''madrid'', [1])])] =
     [(''madrid'', [(1, [0]), (0, [1])]), (''real'', [(0, [0, 3])])] \<and>
   build_positional_index
      [(0, [(''real'', [0, 3]), (''madrid'', [1])]), (1, [(''madrid'', [0])])] =
     [(''real'', [(0, [0, 3])]), (''madrid'', [(0, [1]), (1, [0])])]"
proof -
  have m1: "mset [(1 :: int, [(''real'', ''madrid'')]), (0, [(''real'', ''madrid''), (''madrid'', ''win'')])] =
            mset [(0, [(''real'', ''madrid''), (''madrid'', ''win'')]), (1, [(''real'', ''madrid'')])]"
    by simp
  have m2: "mset [(1 :: int, [(''madrid'', [0 :: int])]), (0, [(''real'', [0, 3]), (''madrid'', [1])])] =
            mset [(0, [(''real'', [0, 3]), (''madrid'', [1])]), (1, [(''madrid'', [0])])]"
    by simp
  have d: "distinct (map fst [(0 :: int, [(''real'', [0, 3 :: int]), (''madrid'', [1])]), (1, [(''madrid'', [0])])])"
    by simp
  have e1: "build_positional_index
      [(1, [(''madrid'', [0])]), (0, [(''real'', [0, 3]), (''madrid'', [1])])] =
     [(''madrid'', [(1, [0]), (0, [1])]), (''real'', [(0, [0, 3])])]"
    by code_simp
  have e2: "build_positional_index
      [(0, [(''real'', [0, 3]), (''madrid'', [1])]), (1, [(''madrid'', [0])])] =
     [(''real'', [(0, [0, 3])]), (''madrid'', [(0, [1]), (1, [0])])]"
    by code_simp
  note c = c8_reduction_order_independent [OF m1 m2 d]
  show ?thesis
    by (intro conjI) (rule c [THEN conjunct1], rule c [THEN conjunct2], rule e1, rule e2)
qed

section \<open>Properties of the Boolean query engine\<close>

subsection \<open>The parser: progress, termination, failures\<close>

lemma eat_Inr: "eat tokens index token = Inr b \<Longrightarrow> b = index + 1"
  by (simp add: eat_def split: if_splits)

lemma eat_current: "current_token tokens index = Some token \<Longrightarrow> eat tokens index token = Inr (index + 1)"
  by (simp add: eat_def)

lemma parse_index_mono:
  "parse_or n tokens idx ad i = Some (Inr (r, i')) \<Longrightarrow> i < i'"
  "parse_or_loop n tokens idx ad res i = Some (Inr (r, i')) \<Longrightarrow> i \<le> i'"
  "parse_and n tokens idx ad i = Some (Inr (r, i')) \<Longrightarrow> i < i'"
  "parse_and_loop n tokens idx ad res i = Some (Inr (r, i')) \<Longrightarrow> i \<le> i'"
  "parse_not n tokens idx ad i = Some (Inr (r, i')) \<Longrightarrow> i < i'"
  "parse_primary n tokens idx ad i = Some (Inr (r, i')) \<Longrightarrow> i < i'"
proof (induction n tokens idx ad i and n tokens idx ad res i and n tokens idx ad i
         and n tokens idx ad res i and n tokens idx ad i and n tokens idx ad i
       arbitrary: r i' and r i' and r i' and r i' and r i' and r i'
       rule: parse_or_parse_or_loop_parse_and_parse_and_loop_parse_not_parse_primary.induct)
  case (1 n tokens idx ad index)
  from "1.prems" obtain r1 i1 where a: "parse_and n tokens idx ad index = Some (Inr (r1, i1))"
    and b: "parse_or_loop n tokens idx ad r1 i1 = Some (Inr (r, i'))"
    by (subst (asm) parse_or.simps) (auto split: option.splits sum.splits)
  from "1.IH"(1) [OF a] have "index < i1" .
  moreover from "1.IH"(2) [OF a refl refl b] have "i1 \<le> i'" .
  ultimately show ?case by simp
next
  case (2 n tokens idx ad result index)
  show ?case
  proof (cases "current_token tokens index = Some ''OR''")
    case False
    with "2.prems" show ?thesis by (subst (asm) parse_or_loop.simps) simp
  next
    case True
    with "2.prems" obtain m r1 i1 where n: "n = Suc m"
      and a: "parse_and m tokens idx ad (index + 1) = Some (Inr (r1, i1))"
      and b: "parse_or_loop m tokens idx ad (result \<union> r1) i1 = Some (Inr (r, i'))"
      by (subst (asm) parse_or_loop.simps)
         (auto simp: eat_current split: nat.splits option.splits sum.splits)
    have e: "eat tokens index ''OR'' = Inr (index + 1)" using True by (rule eat_current)
    from "2.IH"(1) [OF True n e a] have "index + 1 < i1" .
    moreover from "2.IH"(2) [OF True n e a refl refl b] have "i1 \<le> i'" .
    ultimately show ?thesis by simp
  qed
next
  case (3 n tokens idx ad index)
  from "3.prems" obtain r1 i1 where a: "parse_not n tokens idx ad index = Some (Inr (r1, i1))"
    and b: "parse_and_loop n tokens idx ad r1 i1 = Some (Inr (r, i'))"
    by (subst (asm) parse_and.simps) (auto split: option.splits sum.splits)
  from "3.IH"(1) [OF a] have "index < i1" .
  moreover from "3.IH"(2) [OF a refl refl b] have "i1 \<le> i'" .
  ultimately show ?case by simp
next
  case (4 n tokens idx ad result index)
  show ?case
  proof (cases "current_token tokens index = Some ''AND''")
    case False
    with "4.prems" show ?thesis by (subst (asm) parse_and_loop.simps) simp
  next
    case True
    with "4.prems" obtain m r1 i1 where n: "n = Suc m"
      and a: "parse_not m tokens idx ad (index + 1) = Some (Inr (r1, i1))"
      and b: "parse_and_loop m tokens idx ad (result \<inter> r1) i1 = Some (Inr (r, i'))"
      by (subst (asm) parse_and_loop.simps)
         (auto simp: eat_current split: nat.splits option.splits sum.splits)
    have e: "eat tokens index ''AND'' = Inr (index + 1)" using True by (rule eat_current)
    from "4.IH"(1) [OF True n e a] have "index + 1 < i1" .
    moreover from "4.IH"(2) [OF True n e a refl refl b] have "i1 \<le> i'" .
    ultimately show ?thesis by simp
  qed
next
  case (5 n tokens idx ad index)
  show ?case
  proof (cases "current_token tokens index = Some ''NOT''")
    case False
    with "5.prems" have "parse_primary n tokens idx ad index = Some (Inr (r, i'))"
      by (subst (asm) parse_not.simps) simp
    from "5.IH"(2) [OF False this] show ?thesis .
  next
    case True
    with "5.prems" obtain m r1 where n: "n = Suc m"
      and a: "parse_not m tokens idx ad (index + 1) = Some (Inr (r1, i'))"
      by (subst (asm) parse_not.simps)
         (auto simp: eat_current split: nat.splits option.splits sum.splits)
    have e: "eat tokens index ''NOT'' = Inr (index + 1)" using True by (rule eat_current)
    from "5.IH"(1) [OF True n e a] show ?thesis by simp
  qed
next
  case (6 n tokens idx ad index)
  show ?case
  proof (cases "current_token tokens index = Some ''(''")
    case False
    with "6.prems" show ?thesis by (subst (asm) parse_primary.simps) (auto simp: Let_def)
  next
    case True
    with "6.prems" obtain m r1 i1 where n: "n = Suc m"
      and a: "parse_or m tokens idx ad (index + 1) = Some (Inr (r1, i1))"
      and b: "eat tokens i1 '')'' = Inr i'"
      by (subst (asm) parse_primary.simps)
         (auto simp: eat_current Let_def split: nat.splits option.splits sum.splits)
    have e: "eat tokens index ''('' = Inr (index + 1)" using True by (rule eat_current)
    from "6.IH" [OF refl True n e a] have "index + 1 < i1" .
    moreover from b have "i' = i1 + 1" by (rule eat_Inr)
    ultimately show ?thesis by simp
  qed
qed

lemma current_token_less: "current_token tokens index = Some t \<Longrightarrow> index < length tokens"
  by (simp add: current_token_def split: if_splits)

lemma current_token_mem: "current_token tokens index = Some t \<Longrightarrow> t \<in> set tokens"
  by (auto simp: current_token_def split: if_splits)

lemma parse_enough_fuel:
  "length tokens - i \<le> n \<Longrightarrow> \<exists>x. parse_or n tokens idx ad i = Some x"
  "length tokens - i \<le> n \<Longrightarrow> \<exists>x. parse_or_loop n tokens idx ad res i = Some x"
  "length tokens - i \<le> n \<Longrightarrow> \<exists>x. parse_and n tokens idx ad i = Some x"
  "length tokens - i \<le> n \<Longrightarrow> \<exists>x. parse_and_loop n tokens idx ad res i = Some x"
  "length tokens - i \<le> n \<Longrightarrow> \<exists>x. parse_not n tokens idx ad i = Some x"
  "length tokens - i \<le> n \<Longrightarrow> \<exists>x. parse_primary n tokens idx ad i = Some x"
proof (induction n tokens idx ad i and n tokens idx ad res i and n tokens idx ad i
         and n tokens idx ad res i and n tokens idx ad i and n tokens idx ad i
       rule: parse_or_parse_or_loop_parse_and_parse_and_loop_parse_not_parse_primary.induct)
  case (1 n tokens idx ad index)
  from "1.IH"(1) [OF "1.prems"] obtain x where x: "parse_and n tokens idx ad index = Some x" by blast
  show ?case
  proof (cases x)
    case (Inl e)
    with x show ?thesis by (subst parse_or.simps) simp
  next
    case (Inr p)
    obtain r1 i1 where p: "p = (r1, i1)" by (cases p)
    from x Inr p have a: "parse_and n tokens idx ad index = Some (Inr (r1, i1))" by simp
    then have "index < i1" by (rule parse_index_mono)
    with "1.prems" have "length tokens - i1 \<le> n" by simp
    from "1.IH"(2) [OF x Inr p [symmetric] this]
    show ?thesis using a by (subst parse_or.simps) simp
  qed
next
  case (2 n tokens idx ad result index)
  show ?case
  proof (cases "current_token tokens index = Some ''OR''")
    case False
    then show ?thesis by (subst parse_or_loop.simps) simp
  next
    case True
    then have "index < length tokens" by (rule current_token_less)
    with "2.prems" obtain m where n: "n = Suc m" and m: "length tokens - (index + 1) \<le> m"
      by (cases n) auto
    have e: "eat tokens index ''OR'' = Inr (index + 1)" using True by (rule eat_current)
    from "2.IH"(1) [OF True n e m] obtain x where x: "parse_and m tokens idx ad (index + 1) = Some x"
      by blast
    show ?thesis
    proof (cases x)
      case (Inl err)
      with x True n e show ?thesis by (subst parse_or_loop.simps) simp
    next
      case (Inr p)
      obtain r1 i1 where p: "p = (r1, i1)" by (cases p)
      from x Inr p have a: "parse_and m tokens idx ad (index + 1) = Some (Inr (r1, i1))" by simp
      then have "index + 1 < i1" by (rule parse_index_mono)
      with m have "length tokens - i1 \<le> m" by simp
      from "2.IH"(2) [OF True n e x Inr p [symmetric] this]
      show ?thesis using a True n e by (subst parse_or_loop.simps) simp
    qed
  qed
next
  case (3 n tokens idx ad index)
  from "3.IH"(1) [OF "3.prems"] obtain x where x: "parse_not n tokens idx ad index = Some x" by blast
  show ?case
  proof (cases x)
    case (Inl e)
    with x show ?thesis by (subst parse_and.simps) simp
  next
    case (Inr p)
    obtain r1 i1 where p: "p = (r1, i1)" by (cases p)
    from x Inr p have a: "parse_not n tokens idx ad index = Some (Inr (r1, i1))" by simp
    then have "index < i1" by (rule parse_index_mono)
    with "3.prems" have "length tokens - i1 \<le> n" by simp
    from "3.IH"(2) [OF x Inr p [symmetric] this]
    show ?thesis using a by (subst parse_and.simps) simp
  qed
next
  case (4 n tokens idx ad result index)
  show ?case
  proof (cases "current_token tokens index = Some ''AND''")
    case False
    then show ?thesis by (subst parse_and_loop.simps) simp
  next
    case True
    then have "index < length tokens" by (rule current_token_less)
    with "4.prems" obtain m where n: "n = Suc m" and m: "length tokens - (index + 1) \<le> m"
      by (cases n) auto
    have e: "eat tokens index ''AND'' = Inr (index + 1)" using True by (rule eat_current)
    from "4.IH"(1) [OF True n e m] obtain x where x: "parse_not m tokens idx ad (index + 1) = Some x"
      by blast
    show ?thesis
    proof (cases x)
      case (Inl err)
      with x True n e show ?thesis by (subst parse_and_loop.simps) simp
    next
      case (Inr p)
      obtain r1 i1 where p: "p = (r1, i1)" by (cases p)
      from x Inr p have a: "parse_not m tokens idx ad (index + 1) = Some (Inr (r1, i1))" by simp
      then have "index + 1 < i1" by (rule parse_index_mono)
      with m have "length tokens - i1 \<le> m" by simp
      from "4.IH"(2) [OF True n e x Inr p [symmetric] this]
      show ?thesis using a True n e by (subst parse_and_loop.simps) simp
    qed
  qed
next
  case (5 n tokens idx ad index)
  show ?case
  proof (cases "current_token tokens index = Some ''NOT''")
    case False
    from "5.IH"(2) [OF False "5.prems"] False show ?thesis
      by (subst parse_not.simps) simp
  next
    case True
    then have "index < length tokens" by (rule current_token_less)
    with "5.prems" obtain m where n: "n = Suc m" and m: "length tokens - (index + 1) \<le> m"
      by (cases n) auto
    have e: "eat tokens index ''NOT'' = Inr (index + 1)" using True by (rule eat_current)
    from "5.IH"(1) [OF True n e m] obtain x where x: "parse_not m tokens idx ad (index + 1) = Some x"
      by blast
    with True n e show ?thesis
      by (subst parse_not.simps) (simp split: sum.splits prod.splits)
  qed
next
  case (6 n tokens idx ad index)
  show ?case
  proof (cases "current_token tokens index = Some ''(''")
    case False
    then show ?thesis by (subst parse_primary.simps) (simp add: Let_def)
  next
    case True
    then have "index < length tokens" by (rule current_token_less)
    with "6.prems" obtain m where n: "n = Suc m" and m: "length tokens - (index + 1) \<le> m"
      by (cases n) auto
    have e: "eat tokens index ''('' = Inr (index + 1)" using True by (rule eat_current)
    from "6.IH" [OF refl True n e m] obtain x where x: "parse_or m tokens idx ad (index + 1) = Some x"
      by blast
    with True n e show ?thesis
      by (subst parse_primary.simps) (simp add: Let_def split: sum.splits prod.splits)
  qed
qed

subsection \<open>Negation\<close>




lemma not_word_paren: "\<not> is_word_char (CHR ''('')" "\<not> is_word_char (CHR '')'')" "\<not> is_word_char (CHR '' '')"
  by (simp_all add: is_word_char_def)

lemma re_tokens_word_run:
  assumes "t \<noteq> []" and "list_all is_word_char t"
    and "rest = [] \<or> \<not> is_word_char (hd rest)"
  shows "re_tokens (t @ rest) = t # re_tokens rest"
proof -
  from assms(1) obtain c cs where t: "t = c # cs" by (cases t) auto
  from assms(2) t have c: "is_word_char c" and cs: "\<forall>x \<in> set cs. is_word_char x"
    by (simp_all add: list_all_iff)
  from c have np: "c \<noteq> CHR ''(''" "c \<noteq> CHR '')''"
    using not_word_paren by auto
  from assms(3) have tw: "takeWhile is_word_char rest = []" and dw: "dropWhile is_word_char rest = rest"
    by (cases rest; simp)+
  have a: "takeWhile is_word_char (cs @ rest) = cs"
    using cs by (simp add: takeWhile_append2 tw)
  have b: "dropWhile is_word_char (cs @ rest) = rest"
    using cs by (simp add: dropWhile_append2 dw)
  show ?thesis
    using c np by (simp add: t a b)
qed



lemma is_term_facts:
  assumes "is_term t"
  shows "t \<noteq> []" "list_all is_word_char t" "standardize t = t" "t \<noteq> ''NOT''" "t \<noteq> ''(''"
proof -
  from assms show ne: "t \<noteq> []" and w: "list_all is_word_char t" by (simp_all add: is_term_def)
  from assms have u: "upper t \<notin> {''AND'', ''OR'', ''NOT''}" and l: "lower t = t"
    by (simp_all add: is_term_def)
  have un: "upper ''NOT'' = ''NOT''" by code_simp
  from w not_word_paren show p: "t \<noteq> ''(''" by auto
  from w not_word_paren have "t \<noteq> '')''" by auto
  with u l p show "standardize t = t" by (simp add: standardize_def)
  from u un show "t \<noteq> ''NOT''" by auto
qed






subsection \<open>Syntax errors\<close>

text \<open>
  C3, as stated, fails: a query whose operand is missing (a trailing \<open>AND\<close>,
  \<open>OR\<close> or \<open>NOT\<close>), or that has a stray closing parenthesis or a second term
  after a complete expression, is evaluated and returns a posting set.
\<close>

theorem c3_missing_operand_counterexample:
  "process_boolean_query ''real AND'' [(''real'', {0, 1})] {0, 1} = Some (Inr {}) \<and>
   process_boolean_query ''real OR'' [(''real'', {0, 1})] {0, 1} = Some (Inr {0, 1}) \<and>
   process_boolean_query ''NOT'' [(''real'', {0, 1})] {0, 1} = Some (Inr {0, 1}) \<and>
   process_boolean_query ''real )'' [(''real'', {0, 1})] {0, 1} = Some (Inr {0, 1}) \<and>
   process_boolean_query ''real madrid'' [(''real'', {0, 1})] {0, 1} = Some (Inr {0, 1})"
  by code_simp

lemma eat_close:
  "eat tokens j '')'' =
     (if current_token tokens j = Some '')'' then Inr (j + 1)
      else Inl (close_diagnostic (current_token tokens j)))"
  by (simp add: eat_def close_diagnostic_def)

lemma parse_fuel_mono:
  "parse_or n tokens idx ad i = Some x \<Longrightarrow> n \<le> n' \<Longrightarrow> parse_or n' tokens idx ad i = Some x"
  "parse_or_loop n tokens idx ad res i = Some x \<Longrightarrow> n \<le> n' \<Longrightarrow>
     parse_or_loop n' tokens idx ad res i = Some x"
  "parse_and n tokens idx ad i = Some x \<Longrightarrow> n \<le> n' \<Longrightarrow> parse_and n' tokens idx ad i = Some x"
  "parse_and_loop n tokens idx ad res i = Some x \<Longrightarrow> n \<le> n' \<Longrightarrow>
     parse_and_loop n' tokens idx ad res i = Some x"
  "parse_not n tokens idx ad i = Some x \<Longrightarrow> n \<le> n' \<Longrightarrow> parse_not n' tokens idx ad i = Some x"
  "parse_primary n tokens idx ad i = Some x \<Longrightarrow> n \<le> n' \<Longrightarrow>
     parse_primary n' tokens idx ad i = Some x"
proof (induction n tokens idx ad i and n tokens idx ad res i and n tokens idx ad i
         and n tokens idx ad res i and n tokens idx ad i and n tokens idx ad i
       arbitrary: n' x and n' x and n' x and n' x and n' x and n' x
       rule: parse_or_parse_or_loop_parse_and_parse_and_loop_parse_not_parse_primary.induct)
  case (1 n tokens idx ad index)
  from "1.prems"(1) obtain y where y: "parse_and n tokens idx ad index = Some y"
    by (subst (asm) parse_or.simps) (auto split: option.splits)
  from "1.IH"(1) [OF y "1.prems"(2)] have y': "parse_and n' tokens idx ad index = Some y" .
  show ?case
  proof (cases y)
    case (Inl e)
    with y "1.prems"(1) have "x = Inl e" by (subst (asm) parse_or.simps) simp
    with y' Inl show ?thesis by (subst parse_or.simps) simp
  next
    case (Inr p)
    obtain r1 i1 where p: "p = (r1, i1)" by (cases p)
    from y Inr p "1.prems"(1) have l: "parse_or_loop n tokens idx ad r1 i1 = Some x"
      by (subst (asm) parse_or.simps) simp
    from "1.IH"(2) [OF y Inr p [symmetric] l "1.prems"(2)]
    show ?thesis using y' Inr p by (subst parse_or.simps) simp
  qed
next
  case (2 n tokens idx ad result index)
  show ?case
  proof (cases "current_token tokens index = Some ''OR''")
    case False
    with "2.prems"(1) have "x = Inr (result, index)"
      by (subst (asm) parse_or_loop.simps) simp
    with False show ?thesis by (subst parse_or_loop.simps) simp
  next
    case True
    have e: "eat tokens index ''OR'' = Inr (index + 1)" using True by (rule eat_current)
    from "2.prems"(1) True obtain m where n: "n = Suc m"
      by (subst (asm) parse_or_loop.simps) (simp split: nat.splits)
    with "2.prems"(2) obtain m' where n': "n' = Suc m'" and mm: "m \<le> m'"
      by (cases n') auto
    from "2.prems"(1) True e n obtain y where y: "parse_and m tokens idx ad (index + 1) = Some y"
      by (subst (asm) parse_or_loop.simps) (auto split: option.splits)
    from "2.IH"(1) [OF True n e y mm] have y': "parse_and m' tokens idx ad (index + 1) = Some y" .
    show ?thesis
    proof (cases y)
      case (Inl err)
      with y "2.prems"(1) True e n have "x = Inl err"
        by (subst (asm) parse_or_loop.simps) simp
      with y' Inl True e n' show ?thesis by (subst parse_or_loop.simps) simp
    next
      case (Inr p)
      obtain r1 i1 where p: "p = (r1, i1)" by (cases p)
      from y Inr p "2.prems"(1) True e n
      have l: "parse_or_loop m tokens idx ad (result \<union> r1) i1 = Some x"
        by (subst (asm) parse_or_loop.simps) simp
      from "2.IH"(2) [OF True n e y Inr p [symmetric] l mm]
      show ?thesis using y' Inr p True e n' by (subst parse_or_loop.simps) simp
    qed
  qed
next
  case (3 n tokens idx ad index)
  from "3.prems"(1) obtain y where y: "parse_not n tokens idx ad index = Some y"
    by (subst (asm) parse_and.simps) (auto split: option.splits)
  from "3.IH"(1) [OF y "3.prems"(2)] have y': "parse_not n' tokens idx ad index = Some y" .
  show ?case
  proof (cases y)
    case (Inl e)
    with y "3.prems"(1) have "x = Inl e" by (subst (asm) parse_and.simps) simp
    with y' Inl show ?thesis by (subst parse_and.simps) simp
  next
    case (Inr p)
    obtain r1 i1 where p: "p = (r1, i1)" by (cases p)
    from y Inr p "3.prems"(1) have l: "parse_and_loop n tokens idx ad r1 i1 = Some x"
      by (subst (asm) parse_and.simps) simp
    from "3.IH"(2) [OF y Inr p [symmetric] l "3.prems"(2)]
    show ?thesis using y' Inr p by (subst parse_and.simps) simp
  qed
next
  case (4 n tokens idx ad result index)
  show ?case
  proof (cases "current_token tokens index = Some ''AND''")
    case False
    with "4.prems"(1) have "x = Inr (result, index)"
      by (subst (asm) parse_and_loop.simps) simp
    with False show ?thesis by (subst parse_and_loop.simps) simp
  next
    case True
    have e: "eat tokens index ''AND'' = Inr (index + 1)" using True by (rule eat_current)
    from "4.prems"(1) True obtain m where n: "n = Suc m"
      by (subst (asm) parse_and_loop.simps) (simp split: nat.splits)
    with "4.prems"(2) obtain m' where n': "n' = Suc m'" and mm: "m \<le> m'"
      by (cases n') auto
    from "4.prems"(1) True e n obtain y where y: "parse_not m tokens idx ad (index + 1) = Some y"
      by (subst (asm) parse_and_loop.simps) (auto split: option.splits)
    from "4.IH"(1) [OF True n e y mm] have y': "parse_not m' tokens idx ad (index + 1) = Some y" .
    show ?thesis
    proof (cases y)
      case (Inl err)
      with y "4.prems"(1) True e n have "x = Inl err"
        by (subst (asm) parse_and_loop.simps) simp
      with y' Inl True e n' show ?thesis by (subst parse_and_loop.simps) simp
    next
      case (Inr p)
      obtain r1 i1 where p: "p = (r1, i1)" by (cases p)
      from y Inr p "4.prems"(1) True e n
      have l: "parse_and_loop m tokens idx ad (result \<inter> r1) i1 = Some x"
        by (subst (asm) parse_and_loop.simps) simp
      from "4.IH"(2) [OF True n e y Inr p [symmetric] l mm]
      show ?thesis using y' Inr p True e n' by (subst parse_and_loop.simps) simp
    qed
  qed
next
  case (5 n tokens idx ad index)
  show ?case
  proof (cases "current_token tokens index = Some ''NOT''")
    case False
    with "5.prems"(1) have "parse_primary n tokens idx ad index = Some x"
      by (subst (asm) parse_not.simps) simp
    from "5.IH"(2) [OF False this "5.prems"(2)] False show ?thesis
      by (subst parse_not.simps) simp
  next
    case True
    have e: "eat tokens index ''NOT'' = Inr (index + 1)" using True by (rule eat_current)
    from "5.prems"(1) True obtain m where n: "n = Suc m"
      by (subst (asm) parse_not.simps) (simp split: nat.splits)
    with "5.prems"(2) obtain m' where n': "n' = Suc m'" and mm: "m \<le> m'"
      by (cases n') auto
    from "5.prems"(1) True e n obtain y where y: "parse_not m tokens idx ad (index + 1) = Some y"
      by (subst (asm) parse_not.simps) (auto split: option.splits)
    from "5.IH"(1) [OF True n e y mm] have y': "parse_not m' tokens idx ad (index + 1) = Some y" .
    from "5.prems"(1) True e n y
    have "x = (case y of Inl err \<Rightarrow> Inl err | Inr (operand, i1) \<Rightarrow> Inr (ad - operand, i1))"
      by (subst (asm) parse_not.simps) (auto split: sum.splits prod.splits)
    with True e n' y' show ?thesis
      by (subst parse_not.simps) (auto split: sum.splits prod.splits)
  qed
next
  case (6 n tokens idx ad index)
  show ?case
  proof (cases "current_token tokens index = Some ''(''")
    case False
    with "6.prems"(1) have "x = Inr (case current_token tokens index of None \<Rightarrow> {}
        | Some t \<Rightarrow> dict_get idx t {}, index + 1)"
      by (subst (asm) parse_primary.simps) (simp add: Let_def)
    with False show ?thesis by (subst parse_primary.simps) (simp add: Let_def)
  next
    case True
    have e: "eat tokens index ''('' = Inr (index + 1)" using True by (rule eat_current)
    from "6.prems"(1) True obtain m where n: "n = Suc m"
      by (subst (asm) parse_primary.simps) (simp add: Let_def split: nat.splits)
    with "6.prems"(2) obtain m' where n': "n' = Suc m'" and mm: "m \<le> m'"
      by (cases n') auto
    from "6.prems"(1) True e n obtain y where y: "parse_or m tokens idx ad (index + 1) = Some y"
      by (subst (asm) parse_primary.simps) (auto simp: Let_def split: option.splits)
    from "6.IH" [OF refl True n e y mm] have y': "parse_or m' tokens idx ad (index + 1) = Some y" .
    from "6.prems"(1) True e n y
    have "x = (case y of Inl err \<Rightarrow> Inl err
             | Inr (result, i1) \<Rightarrow>
                 (case eat tokens i1 '')'' of Inl err \<Rightarrow> Inl err | Inr i2 \<Rightarrow> Inr (result, i2)))"
      by (subst (asm) parse_primary.simps) (auto simp: Let_def split: sum.splits prod.splits)
    with True e n' y' show ?thesis
      by (subst parse_primary.simps) (auto simp: Let_def split: sum.splits prod.splits)
  qed
qed

lemma unclosed_groupI:
  assumes "current_token tokens i = Some ''(''"
    and "parse_or m tokens idx ad (i + 1) = Some (Inr (result, j))"
    and "m \<le> length tokens"
    and "current_token tokens j \<noteq> Some '')''"
  shows "unclosed_group tokens idx ad i j"
proof -
  from parse_fuel_mono(1) [OF assms(2,3)]
  have "parse_query (length tokens) tokens idx ad (i + 1) = Some (Inr (result, j))"
    by (simp add: parse_query_def)
  with assms(1,4) show ?thesis by (simp add: unclosed_group_def)
qed

lemma parse_error_is_unclosed_group:
  "parse_or n tokens idx ad i = Some (Inl e) \<Longrightarrow> n \<le> length tokens \<Longrightarrow>
     \<exists>k j. unclosed_group tokens idx ad k j \<and> e = close_diagnostic (current_token tokens j)"
  "parse_or_loop n tokens idx ad res i = Some (Inl e) \<Longrightarrow> n \<le> length tokens \<Longrightarrow>
     \<exists>k j. unclosed_group tokens idx ad k j \<and> e = close_diagnostic (current_token tokens j)"
  "parse_and n tokens idx ad i = Some (Inl e) \<Longrightarrow> n \<le> length tokens \<Longrightarrow>
     \<exists>k j. unclosed_group tokens idx ad k j \<and> e = close_diagnostic (current_token tokens j)"
  "parse_and_loop n tokens idx ad res i = Some (Inl e) \<Longrightarrow> n \<le> length tokens \<Longrightarrow>
     \<exists>k j. unclosed_group tokens idx ad k j \<and> e = close_diagnostic (current_token tokens j)"
  "parse_not n tokens idx ad i = Some (Inl e) \<Longrightarrow> n \<le> length tokens \<Longrightarrow>
     \<exists>k j. unclosed_group tokens idx ad k j \<and> e = close_diagnostic (current_token tokens j)"
  "parse_primary n tokens idx ad i = Some (Inl e) \<Longrightarrow> n \<le> length tokens \<Longrightarrow>
     \<exists>k j. unclosed_group tokens idx ad k j \<and> e = close_diagnostic (current_token tokens j)"
proof (induction n tokens idx ad i and n tokens idx ad res i and n tokens idx ad i
         and n tokens idx ad res i and n tokens idx ad i and n tokens idx ad i
       rule: parse_or_parse_or_loop_parse_and_parse_and_loop_parse_not_parse_primary.induct)
  case (1 n tokens idx ad index)
  from "1.prems"(1) consider
      (first) "parse_and n tokens idx ad index = Some (Inl e)"
    | (rest) r1 i1 where "parse_and n tokens idx ad index = Some (Inr (r1, i1))"
        "parse_or_loop n tokens idx ad r1 i1 = Some (Inl e)"
    by (subst (asm) parse_or.simps) (auto split: option.splits sum.splits)
  then show ?case
  proof cases
    case first
    from "1.IH"(1) [OF first "1.prems"(2)] show ?thesis .
  next
    case rest
    from "1.IH"(2) [OF rest(1) refl refl rest(2) "1.prems"(2)] show ?thesis .
  qed
next
  case (2 n tokens idx ad result index)
  have True: "current_token tokens index = Some ''OR''"
    using "2.prems"(1) by (subst (asm) parse_or_loop.simps) (simp split: if_splits)
  have e: "eat tokens index ''OR'' = Inr (index + 1)" using True by (rule eat_current)
  from "2.prems"(1) True e obtain m where n: "n = Suc m"
    by (subst (asm) parse_or_loop.simps) (simp split: nat.splits)
  with "2.prems"(2) have m: "m \<le> length tokens" by simp
  from "2.prems"(1) True e n consider
      (first) "parse_and m tokens idx ad (index + 1) = Some (Inl e)"
    | (rest) r1 i1 where "parse_and m tokens idx ad (index + 1) = Some (Inr (r1, i1))"
        "parse_or_loop m tokens idx ad (result \<union> r1) i1 = Some (Inl e)"
    by (subst (asm) parse_or_loop.simps) (auto split: option.splits sum.splits)
  then show ?case
  proof cases
    case first
    from "2.IH"(1) [OF True n e first m] show ?thesis .
  next
    case rest
    from "2.IH"(2) [OF True n e rest(1) refl refl rest(2) m] show ?thesis .
  qed
next
  case (3 n tokens idx ad index)
  from "3.prems"(1) consider
      (first) "parse_not n tokens idx ad index = Some (Inl e)"
    | (rest) r1 i1 where "parse_not n tokens idx ad index = Some (Inr (r1, i1))"
        "parse_and_loop n tokens idx ad r1 i1 = Some (Inl e)"
    by (subst (asm) parse_and.simps) (auto split: option.splits sum.splits)
  then show ?case
  proof cases
    case first
    from "3.IH"(1) [OF first "3.prems"(2)] show ?thesis .
  next
    case rest
    from "3.IH"(2) [OF rest(1) refl refl rest(2) "3.prems"(2)] show ?thesis .
  qed
next
  case (4 n tokens idx ad result index)
  have True: "current_token tokens index = Some ''AND''"
    using "4.prems"(1) by (subst (asm) parse_and_loop.simps) (simp split: if_splits)
  have e: "eat tokens index ''AND'' = Inr (index + 1)" using True by (rule eat_current)
  from "4.prems"(1) True e obtain m where n: "n = Suc m"
    by (subst (asm) parse_and_loop.simps) (simp split: nat.splits)
  with "4.prems"(2) have m: "m \<le> length tokens" by simp
  from "4.prems"(1) True e n consider
      (first) "parse_not m tokens idx ad (index + 1) = Some (Inl e)"
    | (rest) r1 i1 where "parse_not m tokens idx ad (index + 1) = Some (Inr (r1, i1))"
        "parse_and_loop m tokens idx ad (result \<inter> r1) i1 = Some (Inl e)"
    by (subst (asm) parse_and_loop.simps) (auto split: option.splits sum.splits)
  then show ?case
  proof cases
    case first
    from "4.IH"(1) [OF True n e first m] show ?thesis .
  next
    case rest
    from "4.IH"(2) [OF True n e rest(1) refl refl rest(2) m] show ?thesis .
  qed
next
  case (5 n tokens idx ad index)
  show ?case
  proof (cases "current_token tokens index = Some ''NOT''")
    case False
    with "5.prems"(1) have "parse_primary n tokens idx ad index = Some (Inl e)"
      by (subst (asm) parse_not.simps) simp
    from "5.IH"(2) [OF False this "5.prems"(2)] show ?thesis .
  next
    case True
    have e: "eat tokens index ''NOT'' = Inr (index + 1)" using True by (rule eat_current)
    from "5.prems"(1) True e obtain m where n: "n = Suc m"
      by (subst (asm) parse_not.simps) (simp split: nat.splits)
    with "5.prems"(2) have m: "m \<le> length tokens" by simp
    from "5.prems"(1) True e n have "parse_not m tokens idx ad (index + 1) = Some (Inl e)"
      by (subst (asm) parse_not.simps) (auto split: option.splits sum.splits)
    from "5.IH"(1) [OF True n e this m] show ?thesis .
  qed
next
  case (6 n tokens idx ad index)
  have True: "current_token tokens index = Some ''(''"
    using "6.prems"(1) by (subst (asm) parse_primary.simps) (simp add: Let_def split: if_splits)
  have e: "eat tokens index ''('' = Inr (index + 1)" using True by (rule eat_current)
  from "6.prems"(1) True e obtain m where n: "n = Suc m"
    by (subst (asm) parse_primary.simps) (simp add: Let_def split: nat.splits)
  with "6.prems"(2) have m: "m \<le> length tokens" by simp
  from "6.prems"(1) True e n consider
      (inner) "parse_or m tokens idx ad (index + 1) = Some (Inl e)"
    | (close) r1 i1 where "parse_or m tokens idx ad (index + 1) = Some (Inr (r1, i1))"
        "eat tokens i1 '')'' = Inl e"
    by (subst (asm) parse_primary.simps) (auto simp: Let_def split: option.splits sum.splits)
  then show ?case
  proof cases
    case inner
    from "6.IH" [OF refl True n e inner m] show ?thesis .
  next
    case close
    from close(2) have c: "current_token tokens i1 \<noteq> Some '')''"
      and d: "e = close_diagnostic (current_token tokens i1)"
      by (auto simp: eat_close split: if_splits)
    from unclosed_groupI [OF True close(1) m c] d show ?thesis by blast
  qed
qed

lemma parse_primary_group:
  assumes "current_token tokens i = Some ''(''"
    and "parse_query m tokens idx ad (i + 1) = Some (Inr (result, j))"
  shows "parse_primary (Suc m) tokens idx ad i =
           (if current_token tokens j = Some '')'' then Some (Inr (result, j + 1))
            else Some (Inl (close_diagnostic (current_token tokens j))))"
  using assms
  by (subst parse_primary.simps) (simp add: Let_def eat_current eat_close parse_query_def)

text \<open>
  In this model every query returns: one unit of fuel for each token is enough. The
  call stack of the model is unbounded. The interpreter's is not: it stops a query
  whose \<open>NOT\<close>s and parentheses nest deeper than its recursion limit with a
  RecursionError, an outcome the statements below neither promise nor exclude.
\<close>

lemma process_boolean_query_returns:
  "\<exists>x. process_boolean_query query idx ad = Some x"
proof -
  obtain x where "parse_or (length (tokenize query)) (tokenize query) idx ad 0 = Some x"
    using parse_enough_fuel(1) [of "tokenize query" 0 "length (tokenize query)" idx ad] by auto
  then show ?thesis
    by (cases x) (auto simp: process_boolean_query_def parse_query_def)
qed

lemma process_error_is_unclosed_group:
  assumes "process_boolean_query query idx ad = Some (Inl e)"
  shows "\<exists>i j. unclosed_group (tokenize query) idx ad i j \<and>
           e = close_diagnostic (current_token (tokenize query) j)"
proof -
  from assms have "parse_or (length (tokenize query)) (tokenize query) idx ad 0 = Some (Inl e)"
    by (auto simp: process_boolean_query_def parse_query_def Let_def
        split: option.splits sum.splits)
  from parse_error_is_unclosed_group(1) [OF this] show ?thesis by simp
qed

lemma tokenize_group:
  assumes "is_term t"
  shows "tokenize (''('' @ t @ '')'') = [''('', t, '')'']"
    and "tokenize (''('' @ t) = [''('', t]"
proof -
  note f = is_term_facts [OF assms]
  have c: "re_tokens (t @ '')'') = t # re_tokens '')''"
    by (rule re_tokens_word_run [OF f(1) f(2)]) (simp add: not_word_paren)
  have o: "re_tokens (t @ []) = t # re_tokens []"
    by (rule re_tokens_word_run [OF f(1) f(2)]) simp
  have sp: "standardize ''('' = ''(''" "standardize '')'' = '')''" by code_simp+
  from c show "tokenize (''('' @ t @ '')'') = [''('', t, '')'']"
    by (simp add: tokenize_def f(3) sp)
  from o show "tokenize (''('' @ t) = [''('', t]"
    by (simp add: tokenize_def f(3) sp)
qed

lemma is_term_not_operator:
  assumes "is_term t"
  shows "t \<noteq> ''OR''" "t \<noteq> ''AND''" "t \<noteq> '')''"
proof -
  from assms have u: "upper t \<notin> {''AND'', ''OR'', ''NOT''}" by (simp add: is_term_def)
  have "upper ''OR'' = ''OR''" "upper ''AND'' = ''AND''" by code_simp+
  with u show "t \<noteq> ''OR''" "t \<noteq> ''AND''" by auto
  from is_term_facts(2) [OF assms] not_word_paren show "t \<noteq> '')''" by auto
qed

lemma process_group_of_term:
  assumes "is_term t"
  shows "process_boolean_query (''('' @ t @ '')'') idx ad = Some (Inr (dict_get idx t {}))"
    and "process_boolean_query (''('' @ t) idx ad = Some (Inl (close_diagnostic None))"
proof -
  note f = is_term_facts [OF assms] and g = is_term_not_operator [OF assms]
  have a: "parse_query 3 [''('', t, '')''] idx ad 0 = Some (Inr (dict_get idx t {}, 3))"
    using f(4,5) g
    by (simp add: parse_query_def parse_or.simps parse_or_loop.simps parse_and.simps
        parse_and_loop.simps parse_not.simps parse_primary.simps current_token_def eat_def
        numeral_3_eq_3)
  have b: "parse_query 2 [''('', t] idx ad 0 = Some (Inl (close_diagnostic None))"
    using f(4,5) g
    by (simp add: parse_query_def parse_or.simps parse_or_loop.simps parse_and.simps
        parse_and_loop.simps parse_not.simps parse_primary.simps current_token_def eat_def
        close_diagnostic_def str_token_def numeral_2_eq_2)
  show "process_boolean_query (''('' @ t @ '')'') idx ad = Some (Inr (dict_get idx t {}))"
    by (simp add: process_boolean_query_def tokenize_group [OF assms]
        a [unfolded numeral_3_eq_3] numeral_3_eq_3 del: append.simps)
  show "process_boolean_query (''('' @ t) idx ad = Some (Inl (close_diagnostic None))"
    by (simp add: process_boolean_query_def tokenize_group [OF assms]
        b [unfolded numeral_2_eq_2] numeral_2_eq_2 del: append.simps)
qed

text \<open>
  C3, amended. The parser raises its diagnostic only for a group left unclosed: when
  \<open>process_boolean_query\<close> fails with it, some token \<open>i\<close> is an opening
  parenthesis, the parse of the sub-query behind it ends at a token \<open>j\<close> that is not
  \<open>)\<close>, and the diagnostic is \<open>Expected token ')', got '...'\<close> naming the token
  at \<open>j\<close> (\<open>None\<close> past the end); no posting set is returned. A query without an
  opening parenthesis never raises it. At every group the parser accepts the group
  when its sub-query is followed by \<open>)\<close> and raises the diagnostic otherwise: for a
  term \<open>t\<close>, the query \<open>(t)\<close> returns the postings of \<open>t\<close> and \<open>(t\<close> fails
  with \<open>got 'None'\<close>.
\<close>

theorem c3_diagnostic_only_for_unclosed_group:
  "(process_boolean_query query idx ad = Some (Inl e) \<longrightarrow>
      (\<exists>i j. unclosed_group (tokenize query) idx ad i j \<and>
             e = close_diagnostic (current_token (tokenize query) j))) \<and>
   (''('' \<notin> set (tokenize query) \<longrightarrow>
      process_boolean_query query idx ad \<noteq> Some (Inl (Exception msg))) \<and>
   (current_token tokens i = Some ''('' \<and>
    parse_query m tokens idx ad (i + 1) = Some (Inr (result, j)) \<longrightarrow>
      parse_primary (Suc m) tokens idx ad i =
        (if current_token tokens j = Some '')'' then Some (Inr (result, j + 1))
         else Some (Inl (close_diagnostic (current_token tokens j))))) \<and>
   (is_term t \<longrightarrow>
      process_boolean_query (''('' @ t @ '')'') idx ad = Some (Inr (dict_get idx t {})) \<and>
      process_boolean_query (''('' @ t) idx ad = Some (Inl (close_diagnostic None)))"
proof -
  have a: "process_boolean_query query idx ad = Some (Inl e) \<longrightarrow>
      (\<exists>i j. unclosed_group (tokenize query) idx ad i j \<and>
             e = close_diagnostic (current_token (tokenize query) j))"
    using process_error_is_unclosed_group by blast
  have b: "''('' \<notin> set (tokenize query) \<longrightarrow>
      process_boolean_query query idx ad \<noteq> Some (Inl (Exception msg))"
  proof (intro impI notI)
    assume no: "''('' \<notin> set (tokenize query)"
      and "process_boolean_query query idx ad = Some (Inl (Exception msg))"
    then obtain k where "current_token (tokenize query) k = Some ''(''"
      using process_error_is_unclosed_group [of query idx ad "Exception msg"]
      by (auto simp: unclosed_group_def)
    then have "''('' \<in> set (tokenize query)" by (rule current_token_mem)
    with no show False by simp
  qed
  have c: "current_token tokens i = Some ''('' \<and>
    parse_query m tokens idx ad (i + 1) = Some (Inr (result, j)) \<longrightarrow>
      parse_primary (Suc m) tokens idx ad i =
        (if current_token tokens j = Some '')'' then Some (Inr (result, j + 1))
         else Some (Inl (close_diagnostic (current_token tokens j))))"
    using parse_primary_group by blast
  have d: "is_term t \<longrightarrow>
      process_boolean_query (''('' @ t @ '')'') idx ad = Some (Inr (dict_get idx t {})) \<and>
      process_boolean_query (''('' @ t) idx ad = Some (Inl (close_diagnostic None))"
    using process_group_of_term by blast
  from a b c d show ?thesis by (intro conjI)
qed

theorem c3_diagnostic_only_for_unclosed_group_witness:
  "process_boolean_query ''(real OR madrid'' [(''real'', {0, 1})] {0, 1} =
     Some (Inl (close_diagnostic None)) \<and>
   (\<exists>i j. unclosed_group (tokenize ''(real OR madrid'') [(''real'', {0, 1})] {0, 1} i j \<and>
          close_diagnostic None =
            close_diagnostic (current_token (tokenize ''(real OR madrid'') j)) \<and>
   unclosed_group (tokenize ''(real OR madrid'') [(''real'', {0, 1})] {0, 1} 0 4 \<and>
   process_boolean_query ''real AND'' [(''real'', {0, 1})] {0, 1} \<noteq> Some (Inl (Exception ''x'')) \<and>
   parse_primary 3 [''('', ''real'', '')''] [(''real'', {0, 1})] {0, 1} 0 = Some (Inr ({0, 1}, 3)) \<and>
   is_term ''real'' \<and>
   process_boolean_query ''(real)'' [(''real'', {0, 1})] {0, 1} = Some (Inr {0, 1}) \<and>
   process_boolean_query ''(real'' [(''real'', {0, 1})] {0, 1} = Some (Inl (close_diagnostic None))"
proof -
  note w = c3_diagnostic_only_for_unclosed_group
  have f: "process_boolean_query ''(real OR madrid'' [(''real'', {0, 1})] {0, 1} =
     Some (Inl (close_diagnostic None))"
    unfolding close_diagnostic_def by code_simp
  have g: "\<exists>i j. unclosed_group (tokenize ''(real OR madrid'') [(''real'', {0, 1})] {0, 1} i j \<and>
          close_diagnostic None =
            close_diagnostic (current_token (tokenize ''(real OR madrid'') j)"
    by (rule w [of "''(real OR madrid''" "[(''real'', {0, 1})]" "{0, 1}" "close_diagnostic None",
          THEN conjunct1, THEN mp, OF f])
  have u: "unclosed_group (tokenize ''(real OR madrid'') [(''real'', {0, 1})] {0, 1} 0 4"
    by code_simp
  have n: "''('' \<notin> set (tokenize ''real AND'')" by code_simp
  have h: "process_boolean_query ''real AND'' [(''real'', {0, 1})] {0, 1} \<noteq>
      Some (Inl (Exception ''x''))"
    by (rule w [where query = "''real AND''" and idx = "[(''real'', {0, 1})]" and ad = "{0, 1}"
          and msg = "''x''", THEN conjunct2, THEN conjunct1, THEN mp, OF n])
  have p1: "current_token [''('', ''real'', '')''] 0 = Some ''(''" by code_simp
  have p2: "parse_query 2 [''('', ''real'', '')''] [(''real'', {0, 1})] {0, 1} (0 + 1) =
      Some (Inr ({0, 1}, 2))"
    by code_simp
  have p3: "current_token [''('', ''real'', '')''] 2 = Some '')''" by code_simp
  have "parse_primary (Suc 2) [''('', ''real'', '')''] [(''real'', {0, 1})] {0, 1} 0 =
        (if current_token [''('', ''real'', '')''] 2 = Some '')'' then Some (Inr ({0, 1}, 2 + 1))
         else Some (Inl (close_diagnostic (current_token [''('', ''real'', '')''] 2))))"
    by (rule w [where tokens = "[''('', ''real'', '')'']" and i = 0 and m = 2
          and idx = "[(''real'', {0, 1})]" and ad = "{0, 1}" and result = "{0, 1}" and j = 2,
          THEN conjunct2, THEN conjunct2, THEN conjunct1, THEN mp, OF conjI [OF p1 p2]])
  then have k: "parse_primary 3 [''('', ''real'', '')''] [(''real'', {0, 1})] {0, 1} 0 =
      Some (Inr ({0, 1}, 3))"
    by (simp add: p3 numeral_3_eq_3)
  have t: "is_term ''real''" by code_simp
  have dg: "dict_get [(''real'', {0, 1 :: int})] ''real'' {} = {0, 1}" by code_simp
  note lr = w [where t = "''real''" and idx = "[(''real'', {0, 1})]" and ad = "{0, 1}",
          THEN conjunct2, THEN conjunct2, THEN conjunct2, THEN mp, OF t]
  have l: "process_boolean_query ''(real)'' [(''real'', {0, 1})] {0, 1} = Some (Inr {0, 1})"
    using lr [THEN conjunct1] by (simp add: dg)
  have r: "process_boolean_query ''(real'' [(''real'', {0, 1})] {0, 1} =
      Some (Inl (close_diagnostic None))"
    using lr [THEN conjunct2] by simp
  from f g u h k t l r show ?thesis by (intro conjI)
qed

section \<open>Properties of the term index serialization\<close>

subsection \<open>Printing and reading decimal numbers\<close>

declare str_nat.simps [simp del]

lemma digit_char_props:
  assumes "d < 10"
  shows "is_decimal (digit_char d)" "digit_val (digit_char d) = d"
        "\<not> is_space (digit_char d)" "digit_char d \<noteq> CHR '',''" "digit_char d \<noteq> LF" "digit_char d \<noteq> CR"
        "digit_char d \<noteq> CHR ''-''" "digit_char d \<noteq> CHR ''+''" "digit_char d \<noteq> CHR ''_''"
proof -
  have o: "of_char (digit_char d) = (48 + d :: nat)"
    using assms by (simp add: digit_char_def)
  show "is_decimal (digit_char d)" using assms by (simp add: is_decimal_def o)
  show "digit_val (digit_char d) = d" by (simp add: digit_val_def o)
  show "\<not> is_space (digit_char d)" using assms by (auto simp add: is_space_def o)
  have ne: "digit_char d \<noteq> c" if "(of_char c :: nat) < 48 \<or> 57 < (of_char c :: nat)" for c
    using that assms o by auto
  show "digit_char d \<noteq> CHR '',''" by (rule ne) simp
  show "digit_char d \<noteq> LF" by (rule ne) (simp add: LF_def)
  show "digit_char d \<noteq> CR" by (rule ne) (simp add: CR_def)
  show "digit_char d \<noteq> CHR ''-''" by (rule ne) simp
  show "digit_char d \<noteq> CHR ''+''" by (rule ne) simp
  show "digit_char d \<noteq> CHR ''_''" by (rule ne) simp
qed

lemma str_nat_digits: "is_digits (str_nat n)"
proof (induction n rule: str_nat.induct)
  case (1 n)
  show ?case
  proof (cases "n < 10")
    case True
    then show ?thesis by (subst str_nat.simps) (auto simp: is_digits_def)
  next
    case False
    have "n mod 10 < 10" by simp
    then have "\<exists>d < 10. digit_char (n mod 10) = digit_char d" by blast
    with 1 [OF False] False show ?thesis
      by (subst str_nat.simps) (auto simp: is_digits_def)
  qed
qed

lemma int_digits_decimal:
  "\<forall>c \<in> set ds. is_decimal c \<Longrightarrow>
   int_digits acc ds = Some (foldl (\<lambda>a c. a * 10 + digit_val c) acc ds)"
  by (induction ds arbitrary: acc) simp_all

lemma str_nat_value: "foldl (\<lambda>a c. a * 10 + digit_val c) 0 (str_nat n) = n"
proof (induction n rule: str_nat.induct)
  case (1 n)
  show ?case
  proof (cases "n < 10")
    case True
    then show ?thesis by (subst str_nat.simps) (simp add: digit_char_props)
  next
    case False
    have "n mod 10 < 10" by simp
    with 1 [OF False] False show ?thesis
      by (subst str_nat.simps) (simp add: digit_char_props)
  qed
qed

lemma is_digits_decimal: "is_digits s \<Longrightarrow> c \<in> set s \<Longrightarrow> is_decimal c"
  by (auto simp: is_digits_def digit_char_props)

lemma int_unsigned_str_nat: "int_unsigned (str_nat n) = Some n"
proof -
  have d: "is_digits (str_nat n)" by (rule str_nat_digits)
  then obtain c cs where s: "str_nat n = c # cs" by (cases "str_nat n") (auto simp: is_digits_def)
  from d s have c: "is_decimal c" and cs: "\<forall>x \<in> set cs. is_decimal x"
    by (auto intro: is_digits_decimal)
  have "int_unsigned (c # cs) = Some (foldl (\<lambda>a c. a * 10 + digit_val c) 0 (c # cs))"
    using c by (simp add: int_unsigned_def int_digits_decimal [OF cs])
  then show ?thesis by (simp add: s [symmetric] str_nat_value)
qed

lemma strip_no_space:
  assumes "s \<noteq> []" "\<not> is_space (hd s)" "\<not> is_space (last s)"
  shows "strip s = s"
proof -
  from assms have a: "dropWhile is_space s = s" by (cases s) auto
  from assms have "rev s \<noteq> []" "\<not> is_space (hd (rev s))" by (simp_all add: hd_rev)
  then have "dropWhile is_space (rev s) = rev s" by (cases "rev s") auto
  with a show ?thesis by (simp add: strip_def)
qed

lemma is_digits_ends:
  assumes "is_digits s"
  shows "s \<noteq> []" "\<not> is_space (hd s)" "\<not> is_space (last s)"
        "hd s \<noteq> CHR ''-''" "hd s \<noteq> CHR ''+''"
proof -
  from assms show ne: "s \<noteq> []" by (simp add: is_digits_def)
  then have h: "hd s \<in> set s" and l: "last s \<in> set s" by simp_all
  from assms h obtain d where "d < 10" "hd s = digit_char d"
    unfolding is_digits_def by blast
  moreover from assms l obtain e where "e < 10" "last s = digit_char e"
    unfolding is_digits_def by blast
  ultimately show "\<not> is_space (hd s)" "\<not> is_space (last s)" "hd s \<noteq> CHR ''-''" "hd s \<noteq> CHR ''+''"
    by (simp_all add: digit_char_props)
qed

lemma py_int_str_nat: "py_int (str_nat n) = Inr (int n)"
proof -
  note e = is_digits_ends [OF str_nat_digits [of n]]
  have s: "strip (str_nat n) = str_nat n" using e(1-3) by (rule strip_no_space)
  obtain c cs where c: "str_nat n = c # cs" using e(1) by (cases "str_nat n") auto
  with e have "c \<noteq> CHR ''-''" "c \<noteq> CHR ''+''" by simp_all
  then have "py_int (c # cs) = (case int_unsigned (c # cs) of None \<Rightarrow> Inl ValueError | Some n \<Rightarrow> Inr (int n))"
    using s by (simp add: py_int_def c Let_def split: option.splits)
  then show ?thesis by (simp add: c [symmetric] int_unsigned_str_nat)
qed

lemma isdigit_str_nat: "isdigit (str_nat n)"
  using str_nat_digits [of n]
  by (auto simp: isdigit_def is_digits_def list_all_iff digit_char_props)

lemma str_int_nonneg: "0 \<le> d \<Longrightarrow> str_int d = str_nat (nat d)"
  by (simp add: str_int_def)

lemma py_int_str_int: "0 \<le> d \<Longrightarrow> py_int (str_int d) = Inr d"
  by (simp add: str_int_nonneg py_int_str_nat)

declare split_on.simps [simp del] readlines.simps [simp del]

lemma split_on_no_sep: "sep \<notin> set x \<Longrightarrow> split_on sep x = [x]"
proof -
  assume "sep \<notin> set x"
  then have d: "dropWhile (\<lambda>c. c \<noteq> sep) x = []" by auto
  show ?thesis by (subst split_on.simps) (simp only: d list.case)
qed

lemma split_on_first:
  assumes "sep \<notin> set x"
  shows "split_on sep (x @ sep # rest) = x # split_on sep rest"
proof -
  from assms have a: "\<And>c. c \<in> set x \<Longrightarrow> c \<noteq> sep" by auto
  have d: "dropWhile (\<lambda>c. c \<noteq> sep) (x @ sep # rest) = sep # rest"
    by (simp add: dropWhile_append2 a)
  have t: "takeWhile (\<lambda>c. c \<noteq> sep) (x @ sep # rest) = x"
    by (simp add: takeWhile_append2 a)
  show ?thesis by (subst split_on.simps) (simp add: d t)
qed

lemma split_on_join:
  "xs \<noteq> [] \<Longrightarrow> \<forall>x \<in> set xs. sep \<notin> set x \<Longrightarrow> split_on sep (join [sep] xs) = xs"
proof (induction xs rule: induct_list012)
  case 1
  then show ?case by simp
next
  case (2 x)
  then show ?case by (simp add: split_on_no_sep)
next
  case (3 x y zs)
  then have "split_on sep (join [sep] (y # zs)) = y # zs" by simp
  moreover from 3 have "sep \<notin> set x" by simp
  ultimately show ?case by (simp add: split_on_first)
qed

lemma split_ws_word:
  assumes "w \<noteq> []" and "\<forall>c \<in> set w. \<not> is_space c" and "rest = [] \<or> is_space (hd rest)"
  shows "split_ws (w @ rest) = w # split_ws rest"
proof -
  from assms(1) obtain c cs where w: "w = c # cs" by (cases w) auto
  from assms(2) w have c: "\<not> is_space c" and cs: "\<forall>x \<in> set cs. \<not> is_space x" by simp_all
  from assms(3) have tw: "takeWhile (\<lambda>x. \<not> is_space x) rest = []"
    and dw: "dropWhile (\<lambda>x. \<not> is_space x) rest = rest"
    by (cases rest; simp)+
  have a: "takeWhile (\<lambda>x. \<not> is_space x) (cs @ rest) = cs"
    using cs by (simp add: takeWhile_append2 tw)
  have b: "dropWhile (\<lambda>x. \<not> is_space x) (cs @ rest) = rest"
    using cs by (simp add: dropWhile_append2 dw)
  show ?thesis using c by (simp add: w a b)
qed

lemma split_ws_three:
  assumes "a \<noteq> []" "\<forall>c \<in> set a. \<not> is_space c"
    and "b \<noteq> []" "\<forall>c \<in> set b. \<not> is_space c"
    and "c \<noteq> []" "\<forall>x \<in> set c. \<not> is_space x"
  shows "split_ws (a @ '' '' @ b @ '' '' @ c) = [a, b, c]"
proof -
  have sp: "is_space (CHR '' '')" by (simp add: is_space_def)
  have 1: "split_ws (a @ (CHR '' '' # b @ CHR '' '' # c)) = a # split_ws (CHR '' '' # b @ CHR '' '' # c)"
    by (rule split_ws_word) (simp_all add: assms sp)
  have 2: "split_ws (b @ (CHR '' '' # c)) = b # split_ws (CHR '' '' # c)"
    by (rule split_ws_word) (simp_all add: assms sp)
  have 3: "split_ws (c @ []) = c # split_ws []"
    by (rule split_ws_word) (simp_all add: assms)
  from 1 2 3 sp show ?thesis by simp
qed

lemma strip_line:
  assumes "s \<noteq> []" "\<not> is_space (hd s)" "\<not> is_space (last s)" "is_space c"
  shows "strip (s @ [c]) = s"
proof -
  from assms have a: "dropWhile is_space (s @ [c]) = s @ [c]" by (cases s) auto
  from assms have "rev s \<noteq> []" "\<not> is_space (hd (rev s))" by (simp_all add: hd_rev)
  then have "dropWhile is_space (rev s) = rev s" by (cases "rev s") auto
  with assms(4) a show ?thesis by (simp add: strip_def)
qed

lemma LF_neq_CR: "LF \<noteq> CR"
  by (simp add: LF_def CR_def)

lemma readlines_line:
  assumes "\<forall>c \<in> set body. c \<noteq> LF \<and> c \<noteq> CR"
  shows "readlines (body @ LF # rest) = (body @ [LF]) # readlines rest"
proof -
  obtain c cs where l: "body @ LF # rest = c # cs" by (cases body) auto
  from assms have t: "takeWhile (\<lambda>x. x \<noteq> LF \<and> x \<noteq> CR) (body @ LF # rest) = body"
    by (simp add: takeWhile_append2)
  from assms have d: "dropWhile (\<lambda>x. x \<noteq> LF \<and> x \<noteq> CR) (body @ LF # rest) = LF # rest"
    by (simp add: dropWhile_append2)
  have "readlines (c # cs) = (body @ [LF]) # readlines rest"
    by (subst readlines.simps) (simp add: l [symmetric] t d Let_def LF_neq_CR)
  with l show ?thesis by simp
qed

lemma readlines_concat:
  "\<forall>body \<in> set bodies. \<forall>c \<in> set body. c \<noteq> LF \<and> c \<noteq> CR \<Longrightarrow>
   readlines (concat (map (\<lambda>body. body @ [LF]) bodies)) = map (\<lambda>body. body @ [LF]) bodies"
proof (induction bodies)
  case Nil
  then show ?case by (simp add: readlines.simps)
next
  case (Cons b bs)
  then have "readlines (b @ LF # concat (map (\<lambda>body. body @ [LF]) bs)) =
      (b @ [LF]) # readlines (concat (map (\<lambda>body. body @ [LF]) bs))"
    by (intro readlines_line) simp
  with Cons show ?case by simp
qed

lemma is_digits_chars: "is_digits x \<Longrightarrow> digits_or_commas x"
  by (auto simp: is_digits_def digits_or_commas_def)

lemma is_digits_hd_last:
  assumes "is_digits x"
  shows "\<exists>d < 10. hd x = digit_char d" "\<exists>d < 10. last x = digit_char d"
proof -
  from assms have "x \<noteq> []" by (simp add: is_digits_def)
  then have "hd x \<in> set x" "last x \<in> set x" by simp_all
  with assms show "\<exists>d < 10. hd x = digit_char d" "\<exists>d < 10. last x = digit_char d"
    unfolding is_digits_def by blast+
qed

lemma join_digits:
  assumes "xs \<noteq> []" "\<forall>x \<in> set xs. is_digits x"
  shows "join '','' xs \<noteq> []"
    and "digits_or_commas (join '','' xs)"
    and "\<exists>d < 10. hd (join '','' xs) = digit_char d"
    and "\<exists>d < 10. last (join '','' xs) = digit_char d"
  using assms
proof (induction xs rule: induct_list012)
  case 1
  {
    case 1 then show ?case by simp
  next
    case 2 then show ?case by simp
  next
    case 3 then show ?case by simp
  next
    case 4 then show ?case by simp
  }
next
  case (2 x)
  {
    case 1 then show ?case by (simp add: is_digits_def)
  next
    case 2 then show ?case by (simp add: is_digits_chars)
  next
    case 3 then show ?case by (simp add: is_digits_hd_last)
  next
    case 4 then show ?case by (simp add: is_digits_hd_last)
  }
next
  case (3 x y zs)
  {
    case 1
    then have "x \<noteq> []" by (simp add: is_digits_def)
    then show ?case by simp
  next
    case 2
    then have "digits_or_commas x" "digits_or_commas (join '','' (y # zs))"
      using "3.IH"(6) by (simp_all add: is_digits_chars)
    then show ?case by (auto simp: digits_or_commas_def)
  next
    case 3
    then have "x \<noteq> []" "\<exists>d < 10. hd x = digit_char d"
      by (simp_all add: is_digits_def is_digits_hd_last)
    then show ?case by simp
  next
    case 4
    then have "join '','' (y # zs) \<noteq> []" "\<exists>d < 10. last (join '','' (y # zs)) = digit_char d"
      using "3.IH"(5,8) by simp_all
    then show ?case by simp
  }
qed

lemma save_line_body: "save_line item = line_body item @ [LF]"
  by (simp add: save_line_def line_body_def Let_def)

lemma space_chars: "is_space LF" "is_space CR" "is_space (CHR '' '')" "\<not> is_space (CHR '','')"
  by (simp_all add: is_space_def LF_def CR_def)

lemma str_int_digits: "0 \<le> d \<Longrightarrow> is_digits (str_int d)"
  by (simp add: str_int_nonneg str_nat_digits)

lemma digits_or_commas_props:
  assumes "digits_or_commas s" "c \<in> set s"
  shows "\<not> is_space c" "c \<noteq> LF" "c \<noteq> CR"
proof -
  from assms consider "c = CHR '',''" | d where "d < 10" "c = digit_char d"
    by (auto simp: digits_or_commas_def)
  then show "\<not> is_space c"
    by cases (simp_all add: space_chars digit_char_props)
  then show "c \<noteq> LF" "c \<noteq> CR" using space_chars by auto
qed

lemma is_digits_no_comma:
  assumes "is_digits x"
  shows "CHR '','' \<notin> set x"
proof
  assume "CHR '','' \<in> set x"
  with assms have "\<exists>d < 10. CHR '','' = digit_char d"
    by (simp add: is_digits_def)
  then obtain d where "d < 10" and "CHR '','' = digit_char d" by (elim exE conjE)
  with digit_char_props(4) [of d] show False by simp
qed

lemma isdigit_digits: "is_digits x \<Longrightarrow> isdigit x"
  by (auto simp: isdigit_def is_digits_def list_all_iff digit_char_props)

lemma map_result_py_int:
  "\<forall>d \<in> set ds. 0 \<le> d \<Longrightarrow> map_result py_int (map str_int ds) = Inr ds"
  by (induction ds) (simp_all add: py_int_str_int)

lemma ok_ids:
  assumes "saveable_item item"
  shows "sorted_list_of_set (snd item) \<noteq> []"
    and "\<forall>d \<in> set (sorted_list_of_set (snd item)). 0 \<le> d"
    and "set (sorted_list_of_set (snd item)) = snd item"
  using assms by (auto simp: saveable_item_def)

lemma ok_postings:
  assumes "saveable_item item"
  defines "pl \<equiv> join '','' (map str_int (sorted_list_of_set (snd item)))"
  shows "pl \<noteq> []" and "digits_or_commas pl"
    and "\<exists>d < 10. last pl = digit_char d"
    and "split_on (CHR '','') pl = map str_int (sorted_list_of_set (snd item))"
proof -
  note ids = ok_ids [OF assms(1)]
  have ne: "map str_int (sorted_list_of_set (snd item)) \<noteq> []" using ids(1) by simp
  have dg: "\<forall>x \<in> set (map str_int (sorted_list_of_set (snd item))). is_digits x"
    using ids(2) by (auto simp: str_int_digits)
  from join_digits [OF ne dg]
  show "pl \<noteq> []" "digits_or_commas pl" "\<exists>d < 10. last pl = digit_char d"
    by (simp_all add: pl_def)
  have nc: "\<forall>x \<in> set (map str_int (sorted_list_of_set (snd item))). CHR '','' \<notin> set x"
    using dg is_digits_no_comma by blast
  from split_on_join [OF ne nc] show "split_on (CHR '','') pl = map str_int (sorted_list_of_set (snd item))"
    by (simp add: pl_def)
qed

lemma ok_line_parts:
  assumes "saveable_item item"
  shows "split_ws (strip (save_line item)) =
     [fst item, str_int (int (card (snd item))),
      join '','' (map str_int (sorted_list_of_set (snd item)))]"
proof -
  define trm where "trm = fst item"
  define dfs where "dfs = str_int (int (card (snd item)))"
  define pl where "pl = join '','' (map str_int (sorted_list_of_set (snd item)))"
  note p = ok_postings [OF assms, folded pl_def]
  have t: "trm \<noteq> []" "\<forall>c \<in> set trm. \<not> is_space c"
    using assms by (simp_all add: saveable_item_def trm_def list_all_iff)
  have dd: "is_digits dfs" by (simp add: dfs_def str_int_digits)
  then have d: "dfs \<noteq> []" "\<forall>c \<in> set dfs. \<not> is_space c"
    using digits_or_commas_props(1) [OF is_digits_chars] by (auto simp: is_digits_def)
  have pls: "\<forall>c \<in> set pl. \<not> is_space c"
    using digits_or_commas_props(1) [OF p(2)] by blast
  have body: "line_body item = trm @ '' '' @ dfs @ '' '' @ pl"
    by (simp add: line_body_def trm_def dfs_def pl_def)
  have hd: "\<not> is_space (hd (line_body item))"
    using t by (cases trm) (simp_all add: body)
  from p(3) obtain e where "e < 10" "last pl = digit_char e" by blast
  then have "\<not> is_space (last pl)" by (simp add: digit_char_props)
  then have last: "\<not> is_space (last (line_body item))"
    using p(1) by (simp add: body)
  have "strip (line_body item @ [LF]) = line_body item"
    using hd last space_chars(1) by (intro strip_line) (simp_all add: body t)
  then have "split_ws (strip (save_line item)) = split_ws (trm @ '' '' @ dfs @ '' '' @ pl)"
    by (simp add: save_line_body body)
  also have "\<dots> = [trm, dfs, pl]"
    using t d p(1) pls by (rule split_ws_three)
  finally show ?thesis by (simp add: trm_def dfs_def pl_def)
qed

lemma ok_line_no_newline:
  assumes "saveable_item item" "c \<in> set (line_body item)"
  shows "c \<noteq> LF \<and> c \<noteq> CR"
proof -
  note p = ok_postings [OF assms(1)]
  have dd: "digits_or_commas (str_int (int (card (snd item))))"
    by (simp add: is_digits_chars str_int_digits)
  from assms(2) consider "c \<in> set (fst item)" | "c = CHR '' ''"
    | "c \<in> set (str_int (int (card (snd item))))"
    | "c \<in> set (join '','' (map str_int (sorted_list_of_set (snd item))))"
    by (auto simp: line_body_def)
  then show ?thesis
  proof cases
    case 1
    with assms(1) have "\<not> is_space c" by (simp add: saveable_item_def list_all_iff)
    then show ?thesis using space_chars by auto
  next
    case 2
    then show ?thesis by (simp add: LF_def CR_def)
  next
    case 3
    then show ?thesis using digits_or_commas_props(2,3) [OF dd] by blast
  next
    case 4
    then show ?thesis using digits_or_commas_props(2,3) [OF p(2)] by blast
  qed
qed

lemma load_saved_lines:
  assumes "list_all saveable_item items"
  shows "load_inverted_index_lines (map save_line items) acc =
           Inr (fold (\<lambda>item. AList.update (fst item) (snd item)) items acc)"
  using assms
proof (induction items arbitrary: acc)
  case Nil
  then show ?case by simp
next
  case (Cons item items)
  then have ok: "saveable_item item" and rest: "list_all saveable_item items" by simp_all
  note ids = ok_ids [OF ok]
  have dg: "\<forall>x \<in> set (map str_int (sorted_list_of_set (snd item))). isdigit x"
    using ids(2) by (auto simp: str_int_digits isdigit_digits)
  have f: "filter isdigit (map str_int (sorted_list_of_set (snd item))) =
           map str_int (sorted_list_of_set (snd item))"
    using dg by (simp add: filter_id_conv)
  have "load_inverted_index_lines (save_line item # map save_line items) acc =
        load_inverted_index_lines (map save_line items)
          (AList.update (fst item) (snd item) acc)"
    by (simp add: ok_line_parts [OF ok] ok_postings(4) [OF ok] f
        map_result_py_int [OF ids(2)] ids(3) del: set_sorted_list_of_set)
  with Cons.IH [OF rest] show ?case by simp
qed

lemma update_fresh: "k \<notin> fst ` set al \<Longrightarrow> AList.update k v al = al @ [(k, v)]"
  by (induction al) auto

lemma fold_update_append:
  "distinct (map fst xs) \<Longrightarrow> fst ` set xs \<inter> fst ` set acc = {} \<Longrightarrow>
   fold (\<lambda>item. AList.update (fst item) (snd item)) xs acc = acc @ xs"
proof (induction xs arbitrary: acc)
  case Nil
  then show ?case by simp
next
  case (Cons x xs)
  from Cons.prems have fresh: "fst x \<notin> fst ` set acc" by auto
  have u: "AList.update (fst x) (snd x) acc = acc @ [x]"
    using update_fresh [OF fresh, of "snd x"] by simp
  from Cons.prems have d: "distinct (map fst xs)"
    and i: "fst ` set xs \<inter> fst ` set (acc @ [x]) = {}"
    by auto
  from Cons.IH [OF d i] show ?case by (simp add: u)
qed

lemma saveable_sorted_items:
  assumes "saveable idx"
  shows "list_all saveable_item (sort_key fst idx)"
    and "distinct (map fst (sort_key fst idx))"
    and "set (sort_key fst idx) = set idx"
    and "distinct (map fst idx)"
proof -
  from assms have "list_all saveable_item idx"
    by (simp add: saveable_def list_all_iff saveable_item_def)
  then show "list_all saveable_item (sort_key fst idx)"
    by (simp add: list_all_iff)
  from assms show d: "distinct (map fst idx)" by (simp add: saveable_def dict_keys_def)
  have "mset (map fst (sort_key fst idx)) = mset (map fst idx)" by simp
  with d show "distinct (map fst (sort_key fst idx))"
    by (metis mset_eq_imp_distinct_iff)
  show "set (sort_key fst idx) = set idx" by simp
qed

lemma readlines_saved:
  assumes "saveable idx"
  shows "readlines (save_inverted_index idx) = map save_line (sort_key fst idx)"
proof -
  define bodies where "bodies = map line_body (sort_key fst idx)"
  have ok: "\<forall>item \<in> set (sort_key fst idx). saveable_item item"
    using saveable_sorted_items(1) [OF assms] by (simp add: list_all_iff)
  have nl: "\<forall>body \<in> set bodies. \<forall>c \<in> set body. c \<noteq> LF \<and> c \<noteq> CR"
    unfolding bodies_def using ok ok_line_no_newline by auto
  have m: "map save_line (sort_key fst idx) = map (\<lambda>body. body @ [LF]) bodies"
    by (simp add: bodies_def save_line_body)
  from readlines_concat [OF nl] show ?thesis
    by (simp add: save_inverted_index_def m del: map_map)
qed

text \<open>
  C7. For every term index of non-empty, whitespace-free terms and non-empty sets of
  non-negative document IDs, loading the saved text gives back the same index: the
  loaded dict holds the entries of the index in the order of their terms, so it is
  the same mapping from terms to posting sets. The saved file has one line per entry,
  of the form \<open>term df id,id,...\<close> with the IDs ascending, the lines sorted by
  term.
\<close>

theorem c7_save_load_round_trip:
  assumes "saveable idx"
  shows "load_inverted_index (save_inverted_index idx) = Inr (sort_key fst idx) \<and>
         map_of (sort_key fst idx) = map_of idx \<and>
         readlines (save_inverted_index idx) = map save_line (sort_key fst idx) \<and>
         sorted (map fst (sort_key fst idx))"
proof -
  note s = saveable_sorted_items [OF assms]
  have "load_inverted_index (save_inverted_index idx) =
        Inr (fold (\<lambda>item. AList.update (fst item) (snd item)) (sort_key fst idx) [])"
    by (simp add: load_inverted_index_def readlines_saved [OF assms] load_saved_lines [OF s(1)])
  also have "fold (\<lambda>item. AList.update (fst item) (snd item)) (sort_key fst idx) [] =
        [] @ sort_key fst idx"
    by (rule fold_update_append [OF s(2)]) simp
  finally have a: "load_inverted_index (save_inverted_index idx) = Inr (sort_key fst idx)"
    by simp
  have b: "map_of (sort_key fst idx) = map_of idx"
    using map_of_inject_set [OF s(2) s(4)] s(3) by simp
  from a b readlines_saved [OF assms] show ?thesis by simp
qed

theorem c7_save_load_round_trip_witness:
  "saveable [(''real'', {1, 0, 12}), (''madrid'', {3})] \<and>
   save_inverted_index [(''real'', {1, 0, 12}), (''madrid'', {3})] =
     ''madrid 1 3'' @ [LF] @ ''real 3 0,1,12'' @ [LF] \<and>
   load_inverted_index (save_inverted_index [(''real'', {1, 0, 12}), (''madrid'', {3})]) =
     Inr [(''madrid'', {3}), (''real'', {1, 0, 12})]"
proof -
  have h: "saveable [(''real'', {1, 0, 12}), (''madrid'', {3})]"
    by (simp add: saveable_def saveable_item_def dict_keys_def is_space_def)
  have k: "sort_key fst [(''real'', {1, 0, 12 :: int}), (''madrid'', {3})] =
           [(''madrid'', {3}), (''real'', {1, 0, 12})]"
    by code_simp
  have w: "save_inverted_index [(''real'', {1, 0, 12}), (''madrid'', {3})] =
     ''madrid 1 3'' @ [LF] @ ''real 3 0,1,12'' @ [LF]"
    by code_simp
  from c7_save_load_round_trip [OF h] have "load_inverted_index (save_inverted_index [(''real'', {1, 0, 12}), (''madrid'', {3})]) =
     Inr [(''madrid'', {3}), (''real'', {1, 0, 12})]"
    unfolding k by (rule conjunct1)
  with h w show ?thesis by (intro conjI)
qed

end
